theory Spec2Isabelle
  imports Complex_Main "HOL-Library.Sublist" "HOL-Library.Product_Lexorder"
begin

section \<open>Python strings and exceptions\<close>

text \<open>
  Python strings are modelled as \<^typ>\<open>string\<close>.  The model covers ASCII text:
  \<open>str.lower\<close> maps \<open>A\<close>..\<open>Z\<close> to \<open>a\<close>..\<open>z\<close> and leaves every other character as it is.
\<close>

definition lower_char :: "char \<Rightarrow> char" where
  "lower_char c =
     (if (65::nat) \<le> of_char c \<and> of_char c \<le> (90::nat)
      then char_of (of_char c + (32::nat)) else c)"

definition lower :: "string \<Rightarrow> string" where
  "lower s = map lower_char s"

text \<open>
  The exceptions the program can meet.  All but \<open>KeyboardInterrupt\<close> and \<open>SystemExit\<close> derive
  from Python's \<open>Exception\<close>, which is what \<open>except Exception\<close> catches.
\<close>

datatype py_exn =
    KeyboardInterrupt | SystemExit
  | ConnectionError | Timeout | HTTPError | JSONDecodeError
  | AttributeError | TypeError | KeyError | IndexError

definition is_Exception :: "py_exn \<Rightarrow> bool" where
  "is_Exception e = (e \<noteq> KeyboardInterrupt \<and> e \<noteq> SystemExit)"

text \<open>\<open>s.replace(c, '')\<close> for a one-character string \<open>c\<close>: every occurrence of \<open>c\<close> goes.\<close>

definition py_remove :: "char \<Rightarrow> string \<Rightarrow> string" where
  "py_remove c s = filter (\<lambda>x. x \<noteq> c) s"

text \<open>
  \<open>s.split(sep)\<close> for a non-empty separator: the pieces between the occurrences of \<open>sep\<close>,
  found from the left without overlap.  (Python raises \<open>ValueError\<close> on an empty separator;
  the program's separator is a literal of three characters.)
\<close>

function py_split :: "string \<Rightarrow> string \<Rightarrow> string list" where
  "py_split sep [] = [[]]"
| "py_split sep (c # cs) =
     (if sep \<noteq> [] \<and> prefix sep (c # cs)
      then [] # py_split sep (drop (length sep) (c # cs))
      else (case py_split sep cs of [] \<Rightarrow> [[c]] | p # ps \<Rightarrow> (c # p) # ps))"
  by pat_completeness auto
termination
  by (relation "measure (\<lambda>(sep, s). length s)") auto

text \<open>\<open>xs[0]\<close>: the first element, or \<open>IndexError\<close> on an empty list.\<close>

definition py_first :: "'a list \<Rightarrow> py_exn + 'a" where
  "py_first xs = (case xs of [] \<Rightarrow> Inl IndexError | x # _ \<Rightarrow> Inr x)"

section \<open>Catalog cells\<close>

text \<open>
  A cell of the catalog as \<open>pandas.read_csv\<close> yields it: text, the float NaN of a missing
  value, an integer, a boolean, or another float.  Of a float other than NaN only the text
  \<open>str\<close> gives for it is modelled, and the cell carries that text.
\<close>

datatype cell = CStr string | CNaN | CInt int | CBool bool | CFloat string

fun digits :: "nat \<Rightarrow> string" where
  "digits n = (if n < 10 then [char_of (48 + n)] else digits (n div 10) @ [char_of (48 + n mod 10)])"

fun py_str :: "cell \<Rightarrow> string" where
  "py_str (CStr s) = s"
| "py_str CNaN = ''nan''"
| "py_str (CInt i) = (if i < 0 then CHR ''-'' # digits (nat (- i)) else digits (nat i))"
| "py_str (CBool b) = (if b then ''True'' else ''False'')"
| "py_str (CFloat s) = s"

section \<open>Query construction (search\_product, lines 66--73)\<close>

text \<open>
  \<open>clean_name = str(name).replace('"', '').replace(',', '').split(' - ')[0]\<close>;
  \<open>CHR 0x22\<close> is the double quote.
\<close>

definition clean_name :: "cell \<Rightarrow> py_exn + string" where
  "clean_name name =
     py_first (py_split '' - '' (py_remove CHR '','' (py_remove (CHR 0x22) (py_str name))))"

definition generic_brands :: "string list" where
  "generic_brands = [''nan'', ''unknown'', ''generic'', ''none'']"

definition search_term :: "cell \<Rightarrow> cell \<Rightarrow> py_exn + string" where
  "search_term brand name =
     (case clean_name name of
        Inl e \<Rightarrow> Inl e
      | Inr cn \<Rightarrow>
          (let clean_brand = py_str brand in
           if lower clean_brand \<in> set generic_brands then Inr cn
           else Inr (clean_brand @ '' '' @ cn)))"

section \<open>difflib.SequenceMatcher\<close>

text \<open>
  Line 92 of KrogerMatch.py scores a match with
  \<open>difflib.SequenceMatcher(None, a, b).ratio()\<close> of the Python standard library.  The
  definitions below follow \<open>Lib/difflib.py\<close>: \<open>__chain_b\<close> (with \<open>isjunk = None\<close> no
  element is junk, and with \<open>autojunk\<close> an element of a sequence of 200 or more that
  occurs more often than one percent of its length plus one is dropped from \<open>b2j\<close>),
  \<open>find_longest_match\<close>, \<open>get_matching_blocks\<close> and \<open>ratio\<close>.

  Indices are natural numbers.  In \<open>find_longest_match\<close> the length \<open>k\<close> of a match ending
  at \<open>a[i]\<close> and \<open>b[j]\<close> is at most \<open>i - alo + 1\<close> and \<open>j - blo + 1\<close>, so Python's \<open>i-k+1\<close>
  and \<open>j-k+1\<close> are not negative; \<open>j2len.get(j-1, 0)\<close> at \<open>j = 0\<close> looks up the key \<open>-1\<close>,
  which is never in the dictionary, and is written out as the value 0.

  The ratio is a Python float, \<open>2.0 * matches / length\<close>.  The model keeps the exact
  rational value; the float is the nearest double to it.
\<close>

text \<open>
  The matcher object: the two sequences, the dictionary \<open>b2j\<close> from an element of \<open>b\<close> to
  the increasing list of its positions in \<open>b\<close>, and membership in the set \<open>bjunk\<close>.
\<close>

record 'a matcher =
  seq_a :: "'a list"
  seq_b :: "'a list"
  b2j :: "'a \<rightharpoonup> nat list"
  isbjunk :: "'a \<Rightarrow> bool"

text \<open>
  \<open>__chain_b\<close>.  The loop over \<open>enumerate(b)\<close> does \<open>b2j.setdefault(elt, []).append(i)\<close>.
  With \<open>isjunk = None\<close> nothing is purged as junk.  With \<open>n >= 200\<close> the elements whose list
  of positions is longer than \<open>n // 100 + 1\<close> are deleted from \<open>b2j\<close>.
\<close>

definition setdefault_append :: "nat \<times> 'a \<Rightarrow> ('a \<rightharpoonup> nat list) \<Rightarrow> ('a \<rightharpoonup> nat list)" where
  "setdefault_append p d =
     (case p of (i, elt) \<Rightarrow>
        d(elt \<mapsto> (case d elt of None \<Rightarrow> [] | Some indices \<Rightarrow> indices) @ [i]))"

definition chain_b :: "'a list \<Rightarrow> ('a \<rightharpoonup> nat list)" where
  "chain_b b =
     (let b2j = fold setdefault_append (enumerate 0 b) Map.empty;
          n = length b
      in if n \<ge> 200
         then (let ntest = n div 100 + 1
               in (\<lambda>elt. case b2j elt of
                            None \<Rightarrow> None
                          | Some idxs \<Rightarrow> if length idxs > ntest then None else Some idxs))
         else b2j)"

text \<open>
  \<open>SequenceMatcher(None, a, b)\<close>: \<open>bjunk\<close> is the empty set.
\<close>

definition SequenceMatcher :: "'a list \<Rightarrow> 'a list \<Rightarrow> 'a matcher" where
  "SequenceMatcher a b = \<lparr>seq_a = a, seq_b = b, b2j = chain_b b, isbjunk = (\<lambda>_. False)\<rparr>"

text \<open>
  \<open>find_longest_match\<close>, the loop \<open>for j in b2j.get(a[i], nothing)\<close>: a position below \<open>blo\<close>
  is skipped (\<open>continue\<close>), a position from \<open>bhi\<close> on ends the loop (\<open>break\<close>), and otherwise
  \<open>k = newj2len[j] = j2len.get(j-1, 0) + 1\<close> replaces the best match when it is longer.
\<close>

fun inner_loop ::
  "nat \<Rightarrow> nat \<Rightarrow> nat \<Rightarrow> (nat \<rightharpoonup> nat) \<Rightarrow> nat list \<Rightarrow>
   (nat \<rightharpoonup> nat) \<times> (nat \<times> nat \<times> nat) \<Rightarrow> (nat \<rightharpoonup> nat) \<times> (nat \<times> nat \<times> nat)" where
  "inner_loop i blo bhi j2len [] st = st"
| "inner_loop i blo bhi j2len (j # js) (newj2len, (besti, bestj, bestsize)) =
     (if j < blo then inner_loop i blo bhi j2len js (newj2len, (besti, bestj, bestsize))
      else if j \<ge> bhi then (newj2len, (besti, bestj, bestsize))
      else
        (let k = (if j = 0 then 0 else case j2len (j - 1) of None \<Rightarrow> 0 | Some v \<Rightarrow> v) + 1
         in inner_loop i blo bhi j2len js
              (newj2len(j \<mapsto> k),
               if k > bestsize then (i + 1 - k, j + 1 - k, k) else (besti, bestj, bestsize))))"

text \<open>
  The loop \<open>for i in range(alo, ahi)\<close>: each iteration starts a new \<open>newj2len\<close>, which is the
  \<open>j2len\<close> of the next one; the best match starts as \<open>(alo, blo, 0)\<close>.
\<close>

definition b2j_get :: "'a matcher \<Rightarrow> 'a \<Rightarrow> nat list" where
  "b2j_get m x = (case b2j m x of None \<Rightarrow> [] | Some js \<Rightarrow> js)"

definition row_step ::
  "'a matcher \<Rightarrow> nat \<Rightarrow> nat \<Rightarrow> nat \<Rightarrow>
   (nat \<rightharpoonup> nat) \<times> (nat \<times> nat \<times> nat) \<Rightarrow> (nat \<rightharpoonup> nat) \<times> (nat \<times> nat \<times> nat)" where
  "row_step m blo bhi i st =
     inner_loop i blo bhi (fst st)
       (b2j_get m (seq_a m ! i)) (Map.empty, snd st)"

definition main_loop ::
  "'a matcher \<Rightarrow> nat \<Rightarrow> nat \<Rightarrow> nat \<Rightarrow> nat \<Rightarrow> nat \<times> nat \<times> nat" where
  "main_loop m alo ahi blo bhi =
     snd (fold (row_step m blo bhi) [alo..<ahi] (Map.empty, (alo, blo, 0)))"

text \<open>
  The four \<open>while\<close> loops that extend the best match at its two ends, first by elements
  that are not junk, then by junk; \<open>ok\<close> is the test on \<open>b[bestj-1]\<close> or
  \<open>b[bestj+bestsize]\<close>.  The guards keep the indices inside \<open>alo..ahi\<close> and \<open>blo..bhi\<close>.
\<close>

function extend_left ::
  "('a \<Rightarrow> bool) \<Rightarrow> 'a list \<Rightarrow> 'a list \<Rightarrow> nat \<Rightarrow> nat \<Rightarrow> nat \<times> nat \<times> nat \<Rightarrow> nat \<times> nat \<times> nat" where
  "extend_left ok a b alo blo (besti, bestj, bestsize) =
     (if besti > alo \<and> bestj > blo \<and> ok (b ! (bestj - 1)) \<and> a ! (besti - 1) = b ! (bestj - 1)
      then extend_left ok a b alo blo (besti - 1, bestj - 1, bestsize + 1)
      else (besti, bestj, bestsize))"
  by pat_completeness auto
termination
  by (relation "measure (\<lambda>(ok, a, b, alo, blo, besti, bestj, bestsize). besti)") auto

declare extend_left.simps [simp del]

function extend_right ::
  "('a \<Rightarrow> bool) \<Rightarrow> 'a list \<Rightarrow> 'a list \<Rightarrow> nat \<Rightarrow> nat \<Rightarrow> nat \<times> nat \<times> nat \<Rightarrow> nat \<times> nat \<times> nat" where
  "extend_right ok a b ahi bhi (besti, bestj, bestsize) =
     (if besti + bestsize < ahi \<and> bestj + bestsize < bhi \<and> ok (b ! (bestj + bestsize))
         \<and> a ! (besti + bestsize) = b ! (bestj + bestsize)
      then extend_right ok a b ahi bhi (besti, bestj, bestsize + 1)
      else (besti, bestj, bestsize))"
  by pat_completeness auto
termination
  by (relation "measure (\<lambda>(ok, a, b, ahi, bhi, besti, bestj, bestsize). ahi - (besti + bestsize))") auto

declare extend_right.simps [simp del]

definition find_longest_match ::
  "'a matcher \<Rightarrow> nat \<Rightarrow> nat \<Rightarrow> nat \<Rightarrow> nat \<Rightarrow> nat \<times> nat \<times> nat" where
  "find_longest_match m alo ahi blo bhi =
     (let a = seq_a m; b = seq_b m;
          notjunk = (\<lambda>x. \<not> isbjunk m x);
          best0 = main_loop m alo ahi blo bhi;
          best1 = extend_left notjunk a b alo blo best0;
          best2 = extend_right notjunk a b ahi bhi best1;
          best3 = extend_left (isbjunk m) a b alo blo best2
      in extend_right (isbjunk m) a b ahi bhi best3)"

subsection \<open>The match lies inside the window\<close>

text \<open>
  A match \<open>(i, j, k)\<close> that \<open>find_longest_match\<close> returns with \<open>k > 0\<close> has
  \<open>alo \<le> i\<close> and \<open>i + k \<le> ahi\<close>.  The loop of \<open>get_matching_blocks\<close> terminates because of
  this: each window it puts on its work list is shorter than the one it came from.
\<close>

definition block_ok :: "nat \<Rightarrow> nat \<Rightarrow> nat \<times> nat \<times> nat \<Rightarrow> bool" where
  "block_ok alo ahi best =
     (case best of (bi, bj, bs) \<Rightarrow> alo \<le> bi \<and> (bi + bs \<le> ahi \<or> (bi = alo \<and> bs = 0)))"

definition lens_le :: "(nat \<rightharpoonup> nat) \<Rightarrow> nat \<Rightarrow> bool" where
  "lens_le j2len n = (\<forall>j v. j2len j = Some v \<longrightarrow> v \<le> n)"

lemma inner_loop_bounds:
  assumes "lens_le j2len (i - alo)" "alo \<le> i" "i < ahi"
    and "lens_le new (Suc i - alo)" "block_ok alo ahi best"
  shows "lens_le (fst (inner_loop i blo bhi j2len js (new, best))) (Suc i - alo)
         \<and> block_ok alo ahi (snd (inner_loop i blo bhi j2len js (new, best)))"
  using assms(4,5)
proof (induction js arbitrary: new best)
  case Nil
  then show ?case by simp
next
  case (Cons j js)
  obtain bi bj bs where best: "best = (bi, bj, bs)" by (cases best)
  define k where "k = (if j = 0 then 0 else case j2len (j - 1) of None \<Rightarrow> 0 | Some v \<Rightarrow> v) + 1"
  have k: "k \<le> Suc i - alo" "1 \<le> k"
    using assms(1,2) by (auto simp: k_def lens_le_def Suc_diff_le split: option.splits)
  have new': "lens_le (new(j \<mapsto> k)) (Suc i - alo)"
    using Cons.prems(1) k by (auto simp: lens_le_def)
  have best': "block_ok alo ahi (if k > bs then (i + 1 - k, j + 1 - k, k) else (bi, bj, bs))"
    using Cons.prems(2) k assms(2,3) by (auto simp: block_ok_def best)
  have step: "inner_loop i blo bhi j2len (j # js) (new, best) =
     (if j < blo then inner_loop i blo bhi j2len js (new, best)
      else if j \<ge> bhi then (new, best)
      else inner_loop i blo bhi j2len js
             (new(j \<mapsto> k), if k > bs then (i + 1 - k, j + 1 - k, k) else (bi, bj, bs)))"
    by (simp add: best k_def Let_def)
  show ?case
  proof (cases "j < blo")
    case True
    then show ?thesis unfolding step using Cons.IH [OF Cons.prems] by simp
  next
    case False
    show ?thesis
    proof (cases "j \<ge> bhi")
      case True
      then show ?thesis unfolding step using False Cons.prems by simp
    next
      case nb: False
      have eq: "inner_loop i blo bhi j2len (j # js) (new, best) =
            inner_loop i blo bhi j2len js
              (new(j \<mapsto> k), if k > bs then (i + 1 - k, j + 1 - k, k) else (bi, bj, bs))"
        unfolding step using False nb by simp
      show ?thesis unfolding eq by (rule Cons.IH [OF new' best'])
    qed
  qed
qed

lemma row_step_bounds:
  assumes "lens_le (fst st) (i - alo)" "alo \<le> i" "i < ahi" "block_ok alo ahi (snd st)"
  shows "lens_le (fst (row_step m blo bhi i st)) (Suc i - alo)
         \<and> block_ok alo ahi (snd (row_step m blo bhi i st))"
  unfolding row_step_def
  by (rule inner_loop_bounds [OF assms(1,2,3) _ assms(4)]) (simp add: lens_le_def)

lemma fold_row_step_bounds:
  assumes "lens_le (fst st) (lo - alo)" "alo \<le> lo" "block_ok alo ahi (snd st)"
  shows "block_ok alo ahi (snd (fold (row_step m blo bhi) [lo..<ahi] st))"
  using assms
proof (induction "ahi - lo" arbitrary: lo st)
  case 0
  then show ?case by simp
next
  case (Suc n)
  then have lt: "lo < ahi" by simp
  have step: "lens_le (fst (row_step m blo bhi lo st)) (Suc lo - alo)"
             "block_ok alo ahi (snd (row_step m blo bhi lo st))"
    using row_step_bounds [OF Suc.prems(1,2) lt Suc.prems(3), of m blo bhi] by simp_all
  have "block_ok alo ahi (snd (fold (row_step m blo bhi) [Suc lo..<ahi] (row_step m blo bhi lo st)))"
    using Suc.hyps(2) Suc.prems(2) step by (intro Suc.hyps(1)) simp_all
  then show ?case
    using lt by (simp add: upt_conv_Cons)
qed

lemma main_loop_bounds: "block_ok alo ahi (main_loop m alo ahi blo bhi)"
  unfolding main_loop_def
  by (rule fold_row_step_bounds) (simp_all add: lens_le_def block_ok_def)

lemma extend_left_bounds:
  "block_ok alo ahi best \<Longrightarrow> block_ok alo ahi (extend_left ok a b alo blo best)"
proof (induction ok a b alo blo best rule: extend_left.induct)
  case (1 ok a b alo blo besti bestj bestsize)
  show ?case
  proof (cases "besti > alo \<and> bestj > blo \<and> ok (b ! (bestj - 1)) \<and> a ! (besti - 1) = b ! (bestj - 1)")
    case True
    moreover have "block_ok alo ahi (besti - 1, bestj - 1, bestsize + 1)"
      using "1.prems" True by (auto simp: block_ok_def)
    ultimately show ?thesis
      using "1.IH" by (subst extend_left.simps) simp
  next
    case False
    then show ?thesis using "1.prems" by (subst extend_left.simps) auto
  qed
qed

lemma extend_right_bounds:
  "block_ok alo ahi best \<Longrightarrow> block_ok alo ahi (extend_right ok a b ahi bhi best)"
proof (induction ok a b ahi bhi best rule: extend_right.induct)
  case (1 ok a b ahi bhi besti bestj bestsize)
  show ?case
  proof (cases "besti + bestsize < ahi \<and> bestj + bestsize < bhi \<and> ok (b ! (bestj + bestsize))
         \<and> a ! (besti + bestsize) = b ! (bestj + bestsize)")
    case True
    moreover have "block_ok alo ahi (besti, bestj, bestsize + 1)"
      using "1.prems" True by (auto simp: block_ok_def)
    ultimately show ?thesis
      using "1.IH" by (subst extend_right.simps) simp
  next
    case False
    then show ?thesis using "1.prems" by (subst extend_right.simps) auto
  qed
qed

lemma find_longest_match_bounds: "block_ok alo ahi (find_longest_match m alo ahi blo bhi)"
  unfolding find_longest_match_def Let_def
  by (intro extend_right_bounds extend_left_bounds main_loop_bounds)

lemma find_longest_match_range:
  assumes "find_longest_match m alo ahi blo bhi = (i, j, k)" "k \<noteq> 0"
  shows "alo \<le> i \<and> i + k \<le> ahi"
  using find_longest_match_bounds [of alo ahi m blo bhi] assms
  by (auto simp: block_ok_def)

subsection \<open>Matching blocks and the ratio\<close>

text \<open>
  \<open>get_matching_blocks\<close>: the work list \<open>queue\<close> is used as a stack (\<open>pop\<close> takes the
  element appended last); the head of the model's list is the top of that stack.
\<close>

function gmb_loop ::
  "'a matcher \<Rightarrow> (nat \<times> nat \<times> nat \<times> nat) list \<Rightarrow> (nat \<times> nat \<times> nat) list \<Rightarrow> (nat \<times> nat \<times> nat) list" where
  "gmb_loop m [] matching_blocks = matching_blocks"
| "gmb_loop m ((alo, ahi, blo, bhi) # queue) matching_blocks =
     (case find_longest_match m alo ahi blo bhi of (i, j, k) \<Rightarrow>
        if k \<noteq> 0 then
          (let queue1 = (if alo < i \<and> blo < j then (alo, i, blo, j) # queue else queue);
               queue2 = (if i + k < ahi \<and> j + k < bhi then (i + k, ahi, j + k, bhi) # queue1
                         else queue1)
           in gmb_loop m queue2 (matching_blocks @ [(i, j, k)]))
        else gmb_loop m queue matching_blocks)"
  by pat_completeness auto
termination
  apply (relation "measure (\<lambda>(m, queue, blocks). sum_list (map (\<lambda>(alo, ahi, blo, bhi). 2 * (ahi - alo) + 1) queue))")
  apply simp
  subgoal for m alo ahi blo bhi queue matching_blocks x y xa ya xb xc
    using find_longest_match_range [of m alo ahi blo bhi x xa ya]
    by (auto split: if_splits)
  subgoal by simp
  done

text \<open>
  The loop that collapses adjacent blocks of the sorted list, started with
  \<open>i1 = j1 = k1 = 0\<close>; the first equation is the \<open>if k1:\<close> after the loop.
\<close>

fun collapse_loop ::
  "(nat \<times> nat \<times> nat) list \<Rightarrow> nat \<times> nat \<times> nat \<Rightarrow> (nat \<times> nat \<times> nat) list \<Rightarrow> (nat \<times> nat \<times> nat) list" where
  "collapse_loop [] (i1, j1, k1) non_adjacent =
     (if k1 \<noteq> 0 then non_adjacent @ [(i1, j1, k1)] else non_adjacent)"
| "collapse_loop ((i2, j2, k2) # rest) (i1, j1, k1) non_adjacent =
     (if i1 + k1 = i2 \<and> j1 + k1 = j2 then collapse_loop rest (i1, j1, k1 + k2) non_adjacent
      else collapse_loop rest (i2, j2, k2)
             (if k1 \<noteq> 0 then non_adjacent @ [(i1, j1, k1)] else non_adjacent))"

text \<open>
  \<open>matching_blocks.sort()\<close> sorts the triples lexicographically; the sentinel
  \<open>(la, lb, 0)\<close> ends the list.
\<close>

definition get_matching_blocks :: "'a matcher \<Rightarrow> (nat \<times> nat \<times> nat) list" where
  "get_matching_blocks m =
     (let la = length (seq_a m); lb = length (seq_b m);
          matching_blocks = sort (gmb_loop m [(0, la, 0, lb)] []);
          non_adjacent = collapse_loop matching_blocks (0, 0, 0) []
      in non_adjacent @ [(la, lb, 0)])"

text \<open>
  \<open>_calculate_ratio\<close> and \<open>ratio\<close>: twice the number of matched elements over the sum
  of the two lengths, and 1.0 when both sequences are empty.
\<close>

definition calculate_ratio :: "nat \<Rightarrow> nat \<Rightarrow> rat" where
  "calculate_ratio matches len = (if len \<noteq> 0 then 2 * of_nat matches / of_nat len else 1)"

definition ratio :: "'a matcher \<Rightarrow> rat" where
  "ratio m =
     (let matches = sum_list (map (\<lambda>(i, j, k). k) (get_matching_blocks m))
      in calculate_ratio matches (length (seq_a m) + length (seq_b m)))"

section \<open>Values of the API's JSON responses\<close>

text \<open>
  What \<open>r.json()\<close> returns: \<open>None\<close>, a boolean, a number, a string, a list or a dictionary
  with string keys.  A finite number is kept by its exact value; Python's \<open>json\<close> module
  also reads \<open>NaN\<close>, \<open>Infinity\<close> and \<open>-Infinity\<close>.  A dictionary is an association list with
  the lookup of \<open>map_of\<close>; the keys of a Python dictionary are distinct, and in a list that
  repeats a key the first entry is the one that counts.
\<close>

datatype pyval =
    PNone | PBool bool | PNum rat | PNaN | PInf | PNegInf
  | PStr string | PList "pyval list" | PDict "(string \<times> pyval) list"

text \<open>Truth value testing, as in \<open>if data:\<close> and \<open>if not token:\<close>.\<close>

fun truthy :: "pyval \<Rightarrow> bool" where
  "truthy PNone = False"
| "truthy (PBool b) = b"
| "truthy (PNum r) = (r \<noteq> 0)"
| "truthy PNaN = True"
| "truthy PInf = True"
| "truthy PNegInf = True"
| "truthy (PStr s) = (s \<noteq> [])"
| "truthy (PList xs) = (xs \<noteq> [])"
| "truthy (PDict kvs) = (kvs \<noteq> [])"

text \<open>\<open>x.get(key, default)\<close>: only a dictionary has the method.\<close>

fun dict_get :: "pyval \<Rightarrow> string \<Rightarrow> pyval \<Rightarrow> py_exn + pyval" where
  "dict_get (PDict kvs) key dflt =
     (case map_of kvs key of None \<Rightarrow> Inr dflt | Some v \<Rightarrow> Inr v)"
| "dict_get _ key dflt = Inl AttributeError"

text \<open>\<open>x[key]\<close> for a string key.\<close>

fun subscript_key :: "pyval \<Rightarrow> string \<Rightarrow> py_exn + pyval" where
  "subscript_key (PDict kvs) key =
     (case map_of kvs key of None \<Rightarrow> Inl KeyError | Some v \<Rightarrow> Inr v)"
| "subscript_key _ key = Inl TypeError"

text \<open>
  \<open>x[0]\<close>: the first element of a list, the first character of a string, \<open>KeyError\<close> on a
  dictionary (its keys are strings), \<open>TypeError\<close> on anything else.
\<close>

fun subscript0 :: "pyval \<Rightarrow> py_exn + pyval" where
  "subscript0 (PList xs) = py_first xs"
| "subscript0 (PStr s) = (case s of [] \<Rightarrow> Inl IndexError | c # _ \<Rightarrow> Inr (PStr [c]))"
| "subscript0 (PDict kvs) = Inl KeyError"
| "subscript0 _ = Inl TypeError"

text \<open>\<open>x.lower()\<close>: only a string has the method.\<close>

fun py_lower :: "pyval \<Rightarrow> py_exn + string" where
  "py_lower (PStr s) = Inr (lower s)"
| "py_lower _ = Inl AttributeError"

text \<open>\<open>x > 0\<close>: numbers and booleans compare with 0, NaN is not greater than anything.\<close>

fun gt0 :: "pyval \<Rightarrow> py_exn + bool" where
  "gt0 (PBool b) = Inr b"
| "gt0 (PNum r) = Inr (r > 0)"
| "gt0 PNaN = Inr False"
| "gt0 PInf = Inr True"
| "gt0 PNegInf = Inr False"
| "gt0 _ = Inl TypeError"

definition bind :: "py_exn + 'a \<Rightarrow> ('a \<Rightarrow> py_exn + 'b) \<Rightarrow> py_exn + 'b" where
  "bind r f = (case r of Inl e \<Rightarrow> Inl e | Inr x \<Rightarrow> f x)"

section \<open>HTTP calls\<close>

text \<open>
  What a call of \<open>requests\<close> does: it raises (a connection error, a timeout, or the
  \<open>KeyboardInterrupt\<close> of a user who stops the run while the call waits), or it returns a
  response with a status code and a body that is JSON or is not.
\<close>

datatype body = NotJson | Json pyval

datatype http_result = Raises py_exn | Response nat body

definition response_json :: "body \<Rightarrow> py_exn + pyval" where
  "response_json b = (case b of NotJson \<Rightarrow> Inl JSONDecodeError | Json v \<Rightarrow> Inr v)"

section \<open>search\_product\<close>

text \<open>
  \<open>round(x, 1)\<close> on the exact value: to the nearest tenth, a tie to the even one.  (Python
  rounds the double; the two agree unless the double of a value next to a tie falls on the
  other side of it.)
\<close>

definition round1 :: "rat \<Rightarrow> rat" where
  "round1 x =
     (let y = x * 10; f = \<lfloor>y\<rfloor>; d = y - of_int f in
      of_int (if d < 1/2 then f else if d > 1/2 then f + 1 else if even f then f else f + 1) / 10)"

text \<open>Line 97: \<open>prices.get('promo', prices.get('regular', 0))\<close>; the default is evaluated first.\<close>

definition extract_price :: "pyval \<Rightarrow> py_exn + pyval" where
  "extract_price prices =
     bind (dict_get prices ''regular'' (PNum 0)) (\<lambda>regular. dict_get prices ''promo'' regular)"

text \<open>
  Lines 86--97, for a truthy \<open>data\<close>: the description of the first product, its similarity
  to the search term, and its price.
\<close>

definition match_candidate :: "string \<Rightarrow> pyval \<Rightarrow> py_exn + (pyval \<times> pyval \<times> rat)" where
  "match_candidate search_term' data =
     bind (subscript0 data) (\<lambda>product.
     bind (dict_get product ''description'' (PStr ''Unknown'')) (\<lambda>found_name.
     bind (py_lower found_name) (\<lambda>found_lower.
     let match_score = ratio (SequenceMatcher (lower search_term') found_lower) in
     bind (dict_get product ''items'' (PList [PDict []])) (\<lambda>items_list.
     bind (subscript0 items_list) (\<lambda>items.
     bind (dict_get items ''price'' (PDict [])) (\<lambda>prices.
     bind (extract_price prices) (\<lambda>price.
     Inr (price, found_name, match_score))))))))"

text \<open>
  Lines 82--101, the body of the \<open>try\<close>: \<open>Inr (Some t)\<close> is \<open>return t\<close> on line 101,
  \<open>Inr None\<close> is leaving the \<open>try\<close> without returning.  The comparison with the float
  \<open>0.2\<close> is the comparison of the exact ratio with 1/5 (the two agree for sequences of
  fewer than \<open>10^15\<close> characters in all).
\<close>

definition search_try :: "string \<Rightarrow> http_result \<Rightarrow> py_exn + (pyval \<times> pyval \<times> pyval) option" where
  "search_try search_term' r =
     (case r of
        Raises e \<Rightarrow> Inl e
      | Response status_code b \<Rightarrow>
          if status_code = 200 then
            bind (response_json b) (\<lambda>j.
            bind (dict_get j ''data'' PNone) (\<lambda>data.
            if truthy data then
              bind (match_candidate search_term' data) (\<lambda>(price, found_name, match_score).
              bind (gt0 price) (\<lambda>positive.
              if positive \<and> match_score > 1/5
              then Inr (Some (price, found_name, PNum (round1 (match_score * 100))))
              else Inr None))
            else Inr None))
          else Inr None)"

definition rejected :: "pyval \<times> pyval \<times> pyval" where
  "rejected = (PNone, PNone, PNum 0)"

text \<open>
  \<open>search_product\<close>: the request that is sent, if one is, and what the function returns or
  raises.  \<open>except Exception\<close> catches what derives from \<open>Exception\<close>.
\<close>

definition search_product ::
  "http_result \<Rightarrow> cell \<Rightarrow> cell \<Rightarrow> string option \<times> (py_exn + pyval \<times> pyval \<times> pyval)" where
  "search_product r brand name =
     (case search_term brand name of
        Inl e \<Rightarrow> (None, Inl e)
      | Inr term \<Rightarrow>
          (Some term,
           case search_try term r of
             Inl e \<Rightarrow> if is_Exception e then Inr rejected else Inl e
           | Inr (Some t) \<Rightarrow> Inr t
           | Inr None \<Rightarrow> Inr rejected))"

section \<open>The enrichment run (the main block, lines 125--173)\<close>

text \<open>
  A row of the catalog as \<open>iterrows\<close> yields it is a pandas Series: the column names with
  the row's cells.  \<open>read_csv\<close> makes the column names distinct, and the rows of one frame
  share them.  An enriched row also holds values that came from the API.
\<close>

datatype field = Csv cell | Py pyval

type_synonym 'v series = "(string \<times> 'v) list"

definition series_get :: "'v series \<Rightarrow> string \<Rightarrow> py_exn + 'v" where
  "series_get row key = (case map_of row key of None \<Rightarrow> Inl KeyError | Some v \<Rightarrow> Inr v)"

text \<open>\<open>row[key] = v\<close>: an existing label keeps its place, a new one goes to the end.\<close>

definition series_set :: "'v series \<Rightarrow> string \<Rightarrow> 'v \<Rightarrow> 'v series" where
  "series_set row key v =
     (if key \<in> set (map fst row)
      then map (\<lambda>(k, old). (k, if k = key then v else old)) row
      else row @ [(key, v)])"

text \<open>Lines 145--148.\<close>

definition enrich :: "cell series \<Rightarrow> pyval \<Rightarrow> pyval \<Rightarrow> pyval \<Rightarrow> field series" where
  "enrich row price kroger_name score =
     series_set
       (series_set
          (series_set
             (series_set (map (\<lambda>(k, c). (k, Csv c)) row) ''Price'' (Py price))
             ''Kroger_Name'' (Py kroger_name))
          ''Match_Score'' (Py score))
       ''Price_Source'' (Py (PStr ''Kroger API''))"

text \<open>
  What the user does during the iteration of a row: nothing, or Ctrl-C after
  \<open>search_product\<close> has returned and before \<open>results.append\<close> has run, or Ctrl-C after the
  append, during the sleep.  (Ctrl-C during the request is the request raising
  \<open>KeyboardInterrupt\<close>.)
\<close>

datatype sigint = NoSigint | SigintBeforeAppend | SigintInSleep

text \<open>The calls that reach the outside: the three requests and a completed \<open>time.sleep\<close>.\<close>

datatype event = AuthRequest | LocationRequest | ProductRequest string | Sleep rat

datatype loop_end = Completed | Interrupted | Raised py_exn

text \<open>
  Lines 136--155, the loop inside \<open>try ... except KeyboardInterrupt\<close>.  Each row comes with
  what the API answers to its request and with what the user does meanwhile.
\<close>

fun run_loop ::
  "(cell series \<times> http_result \<times> sigint) list \<Rightarrow> field series list \<Rightarrow> event list \<Rightarrow>
   loop_end \<times> field series list \<times> event list" where
  "run_loop [] results trace = (Completed, results, trace)"
| "run_loop ((row, r, sig) # rest) results trace =
     (case series_get row ''Brand'' of
        Inl e \<Rightarrow> (Raised e, results, trace)
      | Inr brand \<Rightarrow>
     (case series_get row ''Product_Name'' of
        Inl e \<Rightarrow> (Raised e, results, trace)
      | Inr name \<Rightarrow>
     (case search_product r brand name of (request, outcome) \<Rightarrow>
        (let trace1 = trace @ (case request of None \<Rightarrow> [] | Some term \<Rightarrow> [ProductRequest term])
         in case outcome of
              Inl e \<Rightarrow> (if e = KeyboardInterrupt then Interrupted else Raised e, results, trace1)
            | Inr (price, kroger_name, score) \<Rightarrow>
                if sig = SigintBeforeAppend then (Interrupted, results, trace1)
                else
                  (let results1 =
                     (if truthy price then results @ [enrich row price kroger_name score]
                      else results)
                   in if sig = SigintInSleep then (Interrupted, results1, trace1)
                      else run_loop rest results1 (trace1 @ [Sleep (3/50)]))))))"

text \<open>
  Lines 158--167.  \<open>pd.DataFrame(results)\<close> has the rows in their order and, for rows that
  share their labels, these labels as columns; selecting a label that is not a column
  raises \<open>KeyError\<close>.  The table written by \<open>to_csv\<close> is the result.
\<close>

record table =
  tcolumns :: "string list"
  trows :: "field list list"

definition cols :: "string list" where
  "cols = [''UPC'', ''Brand'', ''Product_Name'', ''Price'', ''Kroger_Name'', ''Match_Score'',
           ''Price_Source'']"

definition frame_columns :: "'v series list \<Rightarrow> string list" where
  "frame_columns results = (case results of [] \<Rightarrow> [] | row # _ \<Rightarrow> map fst row)"

definition select_columns :: "field series list \<Rightarrow> string list \<Rightarrow> py_exn + table" where
  "select_columns results wanted =
     (if list_all (\<lambda>c. c \<in> set (frame_columns results)) wanted
      then Inr \<lparr>tcolumns = wanted,
                trows = map (\<lambda>row. map (\<lambda>c. case map_of row c of None \<Rightarrow> Csv CNaN | Some v \<Rightarrow> v)
                                    wanted) results\<rparr>
      else Inl KeyError)"

definition save :: "field series list \<Rightarrow> py_exn + table option" where
  "save results =
     (if results \<noteq> [] then
        (let nutrition_cols = [c \<leftarrow> frame_columns results. c \<notin> set cols]
         in case select_columns results (cols @ nutrition_cols) of
              Inl e \<Rightarrow> Inl e
            | Inr final_df \<Rightarrow> Inr (Some final_df))
      else Inr None)"

text \<open>Lines 26--43.  \<open>raise_for_status\<close> raises on a status from 400 to 599.\<close>

definition get_access_token :: "http_result \<Rightarrow> py_exn + pyval" where
  "get_access_token r =
     (case (case r of
              Raises e \<Rightarrow> Inl e
            | Response status_code b \<Rightarrow>
                if 400 \<le> status_code \<and> status_code < 600 then Inl HTTPError
                else bind (response_json b) (\<lambda>j. subscript_key j ''access_token''))
      of Inl e \<Rightarrow> if is_Exception e then Inr PNone else Inl e
       | Inr token \<Rightarrow> Inr token)"

text \<open>Lines 45--58.  The bare \<open>except:\<close> catches everything.\<close>

definition get_location_id :: "http_result \<Rightarrow> pyval" where
  "get_location_id r =
     (case (case r of
              Raises e \<Rightarrow> Inl e
            | Response status_code b \<Rightarrow>
                bind (response_json b) (\<lambda>j.
                bind (subscript_key j ''data'') (\<lambda>data.
                if truthy data then
                  bind (subscript0 data) (\<lambda>loc.
                  bind (subscript_key loc ''name'') (\<lambda>name.
                  bind (subscript_key loc ''locationId'') (\<lambda>location_id.
                  Inr (Some location_id))))
                else Inr None)))
      of Inl e \<Rightarrow> PNone
       | Inr None \<Rightarrow> PNone
       | Inr (Some location_id) \<Rightarrow> location_id)"

text \<open>
  How a run ends: by \<open>exit()\<close>, by an exception nothing catches, with the message that no
  prices were found, or with the table written to the output file.
\<close>

datatype run_result = Exited | Uncaught py_exn | NoPrices | Saved table

text \<open>
  Lines 125--173, with the catalog read (\<open>TARGET_SAMPLE_SIZE\<close> is \<open>None\<close>, so every row is
  processed): the answers to the two set-up requests, and the rows with their answers.
\<close>

definition main ::
  "http_result \<Rightarrow> http_result \<Rightarrow> (cell series \<times> http_result \<times> sigint) list \<Rightarrow>
   run_result \<times> event list" where
  "main auth loc rows =
     (case get_access_token auth of
        Inl e \<Rightarrow> (Uncaught e, [AuthRequest])
      | Inr token \<Rightarrow>
          if \<not> truthy token then (Exited, [AuthRequest])
          else
            (let location_id = get_location_id loc in
             if \<not> truthy location_id then (Exited, [AuthRequest, LocationRequest])
             else
               (case run_loop rows [] [AuthRequest, LocationRequest] of
                  (Raised e, results, trace) \<Rightarrow> (Uncaught e, trace)
                | (_, results, trace) \<Rightarrow>
                    (case save results of
                       Inl e \<Rightarrow> (Uncaught e, trace)
                     | Inr None \<Rightarrow> (NoPrices, trace)
                     | Inr (Some final_df) \<Rightarrow> (Saved final_df, trace)))))"

section \<open>The notions of the specification\<close>

text \<open>
  The query term in the words of the specification: quote and comma characters are
  stripped from the name (the quote character is the double quote, \<open>CHR 0x22\<close>; an
  apostrophe stays), the name is cut before the first occurrence of the separator (when
  there is one), and the brand and a space are put in front unless the brand,
  lower-cased, is one of the four sentinels.
\<close>

definition strip_quotes_commas :: "string \<Rightarrow> string" where
  "strip_quotes_commas s = [c \<leftarrow> s. c \<noteq> CHR 0x22 \<and> c \<noteq> CHR '','']"

definition truncate_at :: "string \<Rightarrow> string \<Rightarrow> string" where
  "truncate_at sep s =
     (case find (\<lambda>n. prefix sep (drop n s)) [0..<Suc (length s)] of
        None \<Rightarrow> s
      | Some n \<Rightarrow> take n s)"

definition query_term_spec :: "string \<Rightarrow> string \<Rightarrow> string" where
  "query_term_spec brand name =
     (let cn = truncate_at '' - '' (strip_quotes_commas name) in
      if lower brand \<in> {''nan'', ''unknown'', ''generic'', ''none''} then cn
      else brand @ '' '' @ cn)"

text \<open>
  The MatchCandidate of a request for the query term: the price, the description and the
  similarity that \<open>search_product\<close> computes from the first result, when the answer has
  status 200, is JSON with a non-empty \<open>data\<close>, and nothing raises on the way.
\<close>

definition candidate :: "string \<Rightarrow> http_result \<Rightarrow> (pyval \<times> pyval \<times> rat) option" where
  "candidate term r =
     (case r of
        Raises e \<Rightarrow> None
      | Response status_code b \<Rightarrow>
          if status_code = 200 then
            (case bind (response_json b) (\<lambda>j. dict_get j ''data'' PNone) of
               Inl e \<Rightarrow> None
             | Inr data \<Rightarrow>
                 if truthy data
                 then (case match_candidate term data of Inl e \<Rightarrow> None | Inr c \<Rightarrow> Some c)
                 else None)
          else None)"

text \<open>
  The acceptance policy: the price is greater than 0 and the similarity ratio is greater
  than 0.2.
\<close>

definition accepted :: "pyval \<Rightarrow> rat \<Rightarrow> bool" where
  "accepted price similarity = (gt0 price = Inr True \<and> similarity > 1/5)"

text \<open>
  The MatchOutcome: the price, the matched name and the score (the ratio times 100,
  rounded to one decimal) of an accepted candidate, and the rejected form otherwise.
\<close>

definition match_outcome :: "string \<Rightarrow> http_result \<Rightarrow> pyval \<times> pyval \<times> pyval" where
  "match_outcome term r =
     (case candidate term r of
        None \<Rightarrow> rejected
      | Some (price, found_name, similarity) \<Rightarrow>
          if accepted price similarity
          then (price, found_name, PNum (round1 (similarity * 100)))
          else rejected)"

text \<open>
  The query term of a catalog row, when the row has the two columns the loop reads.
\<close>

definition row_term :: "cell series \<Rightarrow> string option" where
  "row_term row =
     (case series_get row ''Brand'' of
        Inl e \<Rightarrow> None
      | Inr brand \<Rightarrow>
          (case series_get row ''Product_Name'' of
             Inl e \<Rightarrow> None
           | Inr name \<Rightarrow> (case search_term brand name of Inl e \<Rightarrow> None | Inr term \<Rightarrow> Some term)))"

text \<open>
  What a catalog row adds to the output: its enriched row when its candidate is
  accepted, nothing otherwise.  The output of a catalog is what its rows add, in order.
\<close>

definition enriched_row :: "cell series \<times> http_result \<times> sigint \<Rightarrow> field series list" where
  "enriched_row x =
     (case x of (row, r, sig) \<Rightarrow>
        (case row_term row of
           None \<Rightarrow> []
         | Some term \<Rightarrow>
             (case candidate term r of
                None \<Rightarrow> []
              | Some (price, found_name, similarity) \<Rightarrow>
                  if accepted price similarity
                  then [enrich row price found_name (PNum (round1 (similarity * 100)))]
                  else [])))"

definition enriched_rows :: "(cell series \<times> http_result \<times> sigint) list \<Rightarrow> field series list" where
  "enriched_rows rows = concat (map enriched_row rows)"

text \<open>
  What the outside sees of a completed iteration: the request, then the pacing delay.
\<close>

definition row_events :: "cell series \<times> http_result \<times> sigint \<Rightarrow> event list" where
  "row_events x =
     (case row_term (fst x) of None \<Rightarrow> [] | Some term \<Rightarrow> [ProductRequest term, Sleep (3/50)])"

text \<open>
  A RowSearchFailure: a transport error or a timeout (the request raises an
  \<open>Exception\<close>), a status other than 200, a body that is not JSON or not an object, or an
  empty result list.
\<close>

definition row_search_failure :: "http_result \<Rightarrow> bool" where
  "row_search_failure r =
     (case r of
        Raises e \<Rightarrow> is_Exception e
      | Response status_code b \<Rightarrow>
          status_code \<noteq> 200
          \<or> (case b of
                NotJson \<Rightarrow> True
              | Json j \<Rightarrow> (case dict_get j ''data'' PNone of Inl e \<Rightarrow> True | Inr data \<Rightarrow> \<not> truthy data)))"

text \<open>
  A trace of the loop is paced when every product request but possibly the last is
  followed by a sleep of 0.06 seconds before the next request.
\<close>

fun paced :: "event list \<Rightarrow> bool" where
  "paced [] = True"
| "paced [ProductRequest q] = True"
| "paced (ProductRequest q # Sleep d # rest) = (d = 3/50 \<and> paced rest)"
| "paced _ = False"

text \<open>
  The four columns the run adds.
\<close>

definition new_cols :: "string list" where
  "new_cols = [''Price'', ''Kroger_Name'', ''Match_Score'', ''Price_Source'']"

section \<open>A small catalog\<close>

text \<open>
  Two rows with the columns \<open>UPC\<close>, \<open>Brand\<close>, \<open>Product_Name\<close> and \<open>Calories\<close>, and the
  answers of the API: a product with a description and a regular price for the first row,
  a timeout for the second.
\<close>

definition example_response :: "string \<Rightarrow> pyval \<Rightarrow> http_result" where
  "example_response description price =
     Response 200 (Json (PDict [(''data'', PList [PDict
       [(''description'', PStr description),
        (''items'', PList [PDict [(''price'', PDict [(''regular'', price)])]])]])]))"

definition example_row :: "int \<Rightarrow> string \<Rightarrow> string \<Rightarrow> cell series" where
  "example_row upc brand name =
     [(''UPC'', CInt upc), (''Brand'', CStr brand), (''Product_Name'', CStr name),
      (''Calories'', CInt 5)]"

definition example_rows :: "(cell series \<times> http_result \<times> sigint) list" where
  "example_rows =
     [(example_row 1 ''Generic'' ''Eggs - 12'', example_response ''eggs'' (PNum 3), NoSigint),
      (example_row 2 ''Acme'' ''Milk'', Raises Timeout, NoSigint)]"


section \<open>Lemmas on the query term\<close>

lemma py_split_nonempty: "py_split sep s \<noteq> []"
  by (induction sep s rule: py_split.induct) (auto split: list.splits)

lemma find_map_option: "find P (map f xs) = map_option f (find (\<lambda>x. P (f x)) xs)"
  by (induction xs) auto

lemma find_first_occ_Cons:
  "find (\<lambda>n. prefix sep (drop n (c # cs))) [0..<Suc (length (c # cs))] =
     (if prefix sep (c # cs) then Some 0
      else map_option Suc (find (\<lambda>n. prefix sep (drop n cs)) [0..<Suc (length cs)]))"
proof -
  have "[0..<Suc (length (c # cs))] = 0 # map Suc [0..<Suc (length cs)]"
    by (simp add: upt_conv_Cons map_Suc_upt del: upt_Suc)
  then show ?thesis
    by (simp add: find_map_option del: upt_Suc)
qed

lemma truncate_at_Nil: "truncate_at sep [] = []"
  by (simp add: truncate_at_def split: option.splits)

lemma truncate_at_Cons:
  "truncate_at sep (c # cs) = (if prefix sep (c # cs) then [] else c # truncate_at sep cs)"
  unfolding truncate_at_def find_first_occ_Cons
  by (simp split: option.splits del: upt_Suc)

lemma hd_py_split: "sep \<noteq> [] \<Longrightarrow> hd (py_split sep s) = truncate_at sep s"
proof (induction sep s rule: py_split.induct)
  case (1 sep)
  then show ?case by (simp add: truncate_at_Nil)
next
  case (2 sep c cs)
  then show ?case
    using py_split_nonempty [of sep cs]
    by (auto simp: truncate_at_Cons split: list.splits)
qed

lemma py_first_py_split: "sep \<noteq> [] \<Longrightarrow> py_first (py_split sep s) = Inr (truncate_at sep s)"
  using hd_py_split [of sep s] py_split_nonempty [of sep s]
  by (cases "py_split sep s") (auto simp: py_first_def)

lemma py_remove_both: "py_remove CHR '','' (py_remove (CHR 0x22) s) = strip_quotes_commas s"
  by (simp add: py_remove_def strip_quotes_commas_def conj_commute)

lemma clean_name_eq:
  "clean_name name = Inr (truncate_at '' - '' (strip_quotes_commas (py_str name)))"
  by (simp add: clean_name_def py_remove_both py_first_py_split)

lemma search_term_Inr: "\<exists>term. search_term brand name = Inr term"
  by (simp add: search_term_def clean_name_eq Let_def)

section \<open>The ratio of a sequence with itself\<close>

text \<open>
  For \<open>SequenceMatcher s s\<close> the first call of \<open>find_longest_match\<close> returns the whole
  sequence.  With \<open>autojunk\<close> the main loop sees only the elements that are not popular;
  \<open>run s i\<close> is the length of the longest stretch of such elements that ends at position
  \<open>i\<close>.  The loop keeps a best match on the diagonal, at least as long as every \<open>run\<close>
  seen so far, and no match off the diagonal is longer than the \<open>run\<close> at its end; the
  two first \<open>while\<close> loops then extend the diagonal match to the whole sequence.
\<close>

definition positions :: "'a list \<Rightarrow> 'a \<Rightarrow> nat list" where
  "positions b x = map fst (filter (\<lambda>p. snd p = x) (enumerate 0 b))"

definition popular :: "'a list \<Rightarrow> 'a \<Rightarrow> bool" where
  "popular b x = (length b \<ge> 200 \<and> length (positions b x) > length b div 100 + 1)"

lemma fold_setdefault:
  "fold setdefault_append (enumerate k xs) m0 x =
     (let new = map fst (filter (\<lambda>p. snd p = x) (enumerate k xs)) in
      if new = [] then m0 x
      else Some ((case m0 x of None \<Rightarrow> [] | Some l \<Rightarrow> l) @ new))"
proof (induction xs arbitrary: k m0)
  case Nil
  then show ?case by simp
next
  case (Cons y ys)
  show ?case
  proof (cases "y = x")
    case True
    have "setdefault_append (k, y) m0 x = Some ((case m0 x of None \<Rightarrow> [] | Some l \<Rightarrow> l) @ [k])"
      using True by (simp add: setdefault_append_def)
    then show ?thesis
      using True by (simp add: Cons.IH Let_def)
  next
    case False
    have "setdefault_append (k, y) m0 x = m0 x"
      using False by (simp add: setdefault_append_def)
    then show ?thesis
      using False by (simp add: Cons.IH Let_def)
  qed
qed

lemma chain_b_get:
  "(case chain_b b x of None \<Rightarrow> [] | Some js \<Rightarrow> js) = (if popular b x then [] else positions b x)"
  by (simp add: chain_b_def Let_def fold_setdefault popular_def positions_def)

lemma positions_sorted: "sorted_wrt (<) (positions b x)"
proof -
  have "sorted_wrt (<) (map fst (enumerate 0 b))"
    by (simp add: map_fst_enumerate)
  then have "sorted_wrt (\<lambda>p q. fst p < fst q) (enumerate 0 b)"
    by (simp only: sorted_wrt_map)
  then have "sorted_wrt (\<lambda>p q. fst p < fst q) (filter (\<lambda>p. snd p = x) (enumerate 0 b))"
    by (rule sorted_wrt_filter)
  then show ?thesis
    by (simp only: positions_def sorted_wrt_map)
qed

lemma set_positions: "set (positions b x) = {j. j < length b \<and> b ! j = x}"
  by (force simp: positions_def in_set_enumerate_eq image_iff)

fun run :: "'a list \<Rightarrow> nat \<Rightarrow> nat" where
  "run s 0 = (if popular s (s ! 0) then 0 else 1)"
| "run s (Suc i) = (if popular s (s ! Suc i) then 0 else Suc (run s i))"

definition before :: "'a list \<Rightarrow> nat \<Rightarrow> nat" where
  "before s i = (case i of 0 \<Rightarrow> 0 | Suc i' \<Rightarrow> run s i')"

definition next_len :: "(nat \<rightharpoonup> nat) \<Rightarrow> nat \<Rightarrow> nat" where
  "next_len j2len j = (if j = 0 then 0 else case j2len (j - 1) of None \<Rightarrow> 0 | Some v \<Rightarrow> v) + 1"

lemma run_eq: "run s i = (if popular s (s ! i) then 0 else Suc (before s i))"
  by (cases i) (simp_all add: before_def)

lemma run_le: "run s i \<le> Suc i"
  by (induction i) simp_all

definition lens_diag :: "'a list \<Rightarrow> nat \<Rightarrow> (nat \<rightharpoonup> nat) \<Rightarrow> bool" where
  "lens_diag s i j2len =
     ((\<forall>j v. j2len j = Some v \<longrightarrow> v \<le> run s j \<and> v \<le> before s i)
      \<and> (0 < before s i \<longrightarrow> j2len (i - 1) = Some (before s i)))"

lemma next_len_le_own:
  assumes "lens_diag s i j2len" "\<not> popular s (s ! j)"
  shows "next_len j2len j \<le> run s j"
proof (cases j)
  case 0
  then show ?thesis using assms(2) by (simp add: next_len_def)
next
  case (Suc j')
  then show ?thesis
    using assms by (auto simp: next_len_def lens_diag_def split: option.splits)
qed

lemma next_len_le_row:
  assumes "lens_diag s i j2len" "\<not> popular s (s ! i)"
  shows "next_len j2len j \<le> run s i"
  using assms by (auto simp: next_len_def lens_diag_def run_eq split: option.splits)

lemma next_len_diag:
  assumes "lens_diag s i j2len" "\<not> popular s (s ! i)"
  shows "next_len j2len i = run s i"
proof (cases "0 < before s i")
  case True
  then have "i \<noteq> 0" by (cases i) (simp_all add: before_def)
  then show ?thesis
    using assms True by (simp add: next_len_def lens_diag_def run_eq)
next
  case False
  then show ?thesis
    using assms by (auto simp: next_len_def lens_diag_def run_eq split: option.splits)
qed

lemma inner_loop_step:
  assumes "j < bhi"
  shows "inner_loop i 0 bhi j2len (j # js) (new, (p, q, bs)) =
         inner_loop i 0 bhi j2len js
           (new(j \<mapsto> next_len j2len j),
            if next_len j2len j > bs
            then (i + 1 - next_len j2len j, j + 1 - next_len j2len j, next_len j2len j)
            else (p, q, bs))"
  using assms by (simp add: next_len_def Let_def)

lemma inner_loop_diag:
  assumes "lens_diag s i j2len" "\<not> popular s (s ! i)"
    and "sorted_wrt (<) js" "\<forall>j\<in>set js. j < length s \<and> s ! j = s ! i"
    and "p + bs \<le> Suc i" "\<forall>i'<i. run s i' \<le> bs" "i \<in> set js \<or> run s i \<le> bs"
  shows "\<exists>new' p' bs'.
           inner_loop i 0 (length s) j2len js (new, (p, p, bs)) = (new', (p', p', bs'))
           \<and> (\<forall>x. new' x = (if x \<in> set js then Some (next_len j2len x) else new x))
           \<and> p' + bs' \<le> Suc i \<and> (\<forall>i'\<le>i. run s i' \<le> bs')"
  using assms(3-)
proof (induction js arbitrary: new p bs)
  case Nil
  then show ?case by (auto simp: le_less)
next
  case (Cons j js)
  let ?k = "next_len j2len j"
  have j: "j < length s" "s ! j = s ! i" using Cons.prems(2) by auto
  have sorted: "sorted_wrt (<) js" "\<forall>x\<in>set js. j < x" using Cons.prems(1) by auto
  have rest: "\<forall>j\<in>set js. j < length s \<and> s ! j = s ! i" using Cons.prems(2) by auto
  have k_own: "?k \<le> run s j" using assms(1,2) j(2) by (intro next_len_le_own) auto
  have k_row: "?k \<le> run s i" using assms(1,2) by (rule next_len_le_row)
  consider (lt) "j < i" | (eq) "j = i" | (gt) "i < j" by arith
  then have "\<exists>p1 bs1. (if ?k > bs then (i + 1 - ?k, j + 1 - ?k, ?k) else (p, p, bs)) = (p1, p1, bs1)
        \<and> p1 + bs1 \<le> Suc i \<and> (\<forall>i'<i. run s i' \<le> bs1) \<and> (i \<in> set js \<or> run s i \<le> bs1)"
  proof cases
    case lt
    then have "?k \<le> bs" using Cons.prems(4) k_own by (meson le_trans)
    moreover have "i \<in> set js \<or> run s i \<le> bs" using Cons.prems(5) lt by auto
    ultimately show ?thesis using Cons.prems(3,4) by auto
  next
    case eq
    have k: "?k = run s i" unfolding eq using assms(1,2) by (rule next_len_diag)
    show ?thesis
    proof (cases "?k > bs")
      case True
      have "i + 1 - ?k + ?k \<le> Suc i" using run_le [of s i] k by simp
      moreover have "\<forall>i'<i. run s i' \<le> ?k" using Cons.prems(4) True by (meson le_trans less_imp_le)
      ultimately show ?thesis using True k eq by auto
    next
      case False
      then show ?thesis using Cons.prems(3,4) k by auto
    qed
  next
    case gt
    then have "i \<notin> set (j # js)" using sorted(2) by auto
    then have "run s i \<le> bs" using Cons.prems(5) by auto
    then have "?k \<le> bs" using k_row by simp
    then show ?thesis using Cons.prems(3,4) \<open>run s i \<le> bs\<close> by auto
  qed
  then obtain p1 bs1 where
    upd: "(if ?k > bs then (i + 1 - ?k, j + 1 - ?k, ?k) else (p, p, bs)) = (p1, p1, bs1)"
    and b1: "p1 + bs1 \<le> Suc i" "\<forall>i'<i. run s i' \<le> bs1" "i \<in> set js \<or> run s i \<le> bs1"
    by blast
  obtain new' p' bs' where
    res: "inner_loop i 0 (length s) j2len js (new(j \<mapsto> ?k), (p1, p1, bs1)) = (new', (p', p', bs'))"
    and new': "\<forall>x. new' x = (if x \<in> set js then Some (next_len j2len x) else (new(j \<mapsto> ?k)) x)"
    and b': "p' + bs' \<le> Suc i" "\<forall>i'\<le>i. run s i' \<le> bs'"
    using Cons.IH [OF sorted(1) rest b1, of "new(j \<mapsto> ?k)"] by blast
  have "inner_loop i 0 (length s) j2len (j # js) (new, (p, p, bs)) = (new', (p', p', bs'))"
    unfolding inner_loop_step [OF j(1)] upd res ..
  moreover have "\<forall>x. new' x = (if x \<in> set (j # js) then Some (next_len j2len x) else new x)"
    using new' by auto
  ultimately show ?case using b' by blast
qed

definition diag_inv :: "'a list \<Rightarrow> nat \<Rightarrow> (nat \<rightharpoonup> nat) \<times> (nat \<times> nat \<times> nat) \<Rightarrow> bool" where
  "diag_inv s i st =
     (lens_diag s i (fst st)
      \<and> (\<exists>p bs. snd st = (p, p, bs) \<and> p + bs \<le> i \<and> (\<forall>i'<i. run s i' \<le> bs)))"

lemma b2j_get_same:
  "b2j_get (SequenceMatcher s s) x = (if popular s x then [] else positions s x)"
  by (simp add: b2j_get_def SequenceMatcher_def chain_b_get)

lemma row_step_diag:
  assumes "diag_inv s i st" "i < length s"
  shows "diag_inv s (Suc i) (row_step (SequenceMatcher s s) 0 (length s) i st)"
proof -
  obtain j2len p bs where st: "st = (j2len, (p, p, bs))"
    and lens: "lens_diag s i j2len" and best: "p + bs \<le> i" "\<forall>i'<i. run s i' \<le> bs"
    using assms(1) by (cases st) (auto simp: diag_inv_def)
  have a: "seq_a (SequenceMatcher s s) = s" by (simp add: SequenceMatcher_def)
  show ?thesis
  proof (cases "popular s (s ! i)")
    case True
    then have "row_step (SequenceMatcher s s) 0 (length s) i st = (Map.empty, (p, p, bs))"
      by (simp add: row_step_def a b2j_get_same st)
    moreover have "run s i = 0" using True by (simp add: run_eq)
    moreover have "before s (Suc i) = run s i" by (simp add: before_def)
    ultimately show ?thesis
      using best by (auto simp: diag_inv_def lens_diag_def less_Suc_eq)
  next
    case False
    let ?js = "positions s (s ! i)"
    have js: "sorted_wrt (<) ?js" "\<forall>j\<in>set ?js. j < length s \<and> s ! j = s ! i" "i \<in> set ?js"
      using assms(2) by (simp_all add: positions_sorted set_positions)
    obtain new' p' bs' where
      res: "inner_loop i 0 (length s) j2len ?js (Map.empty, (p, p, bs)) = (new', (p', p', bs'))"
      and new': "\<forall>x. new' x = (if x \<in> set ?js then Some (next_len j2len x) else None)"
      and b': "p' + bs' \<le> Suc i" "\<forall>i'\<le>i. run s i' \<le> bs'"
      using inner_loop_diag [OF lens False js(1,2), of p bs Map.empty] best js(3) by auto
    have row: "row_step (SequenceMatcher s s) 0 (length s) i st = (new', (p', p', bs'))"
      using False by (simp add: row_step_def a b2j_get_same st res)
    have bef: "before s (Suc i) = run s i" by (simp add: before_def)
    have "lens_diag s (Suc i) new'"
      unfolding lens_diag_def bef
    proof (intro conjI allI impI)
      fix j v assume "new' j = Some v"
      then have jm: "j \<in> set ?js" and v: "v = next_len j2len j"
        using new' by (auto split: if_splits)
      have "\<not> popular s (s ! j)" using jm js(2) False by auto
      then show "v \<le> run s j" unfolding v using lens by (intro next_len_le_own)
      show "v \<le> run s i" unfolding v using lens False by (rule next_len_le_row)
    next
      show "new' (Suc i - 1) = Some (run s i)"
        using new' js(3) next_len_diag [OF lens False] by simp
    qed
    then show ?thesis
      unfolding row using b' by (auto simp: diag_inv_def less_Suc_eq_le)
  qed
qed

lemma fold_row_step_diag:
  assumes "diag_inv s lo st" "lo \<le> length s"
  shows "diag_inv s (length s) (fold (row_step (SequenceMatcher s s) 0 (length s)) [lo..<length s] st)"
  using assms
proof (induction "length s - lo" arbitrary: lo st)
  case 0
  then show ?case by simp
next
  case (Suc d)
  then have lt: "lo < length s" by simp
  have "diag_inv s (Suc lo) (row_step (SequenceMatcher s s) 0 (length s) lo st)"
    using Suc.prems(1) lt by (rule row_step_diag)
  then have "diag_inv s (length s)
      (fold (row_step (SequenceMatcher s s) 0 (length s)) [Suc lo..<length s]
         (row_step (SequenceMatcher s s) 0 (length s) lo st))"
    using Suc.hyps(2) lt by (intro Suc.hyps(1)) simp_all
  then show ?case using lt by (simp add: upt_conv_Cons)
qed

lemma main_loop_diag:
  "\<exists>p bs. main_loop (SequenceMatcher s s) 0 (length s) 0 (length s) = (p, p, bs) \<and> p + bs \<le> length s"
proof -
  have "diag_inv s 0 (Map.empty, (0, 0, 0))"
    by (simp add: diag_inv_def lens_diag_def before_def)
  then have "diag_inv s (length s)
      (fold (row_step (SequenceMatcher s s) 0 (length s)) [0..<length s] (Map.empty, (0, 0, 0)))"
    by (rule fold_row_step_diag) simp
  then show ?thesis
    by (auto simp: main_loop_def diag_inv_def)
qed

lemma extend_left_diag:
  assumes ok: "\<And>x. ok x"
  shows "extend_left ok s s 0 0 (p, p, bs) = (0, 0, p + bs)"
proof (induction p arbitrary: bs)
  case 0
  show ?case by (subst extend_left.simps) simp
next
  case (Suc p)
  have "extend_left ok s s 0 0 (Suc p, Suc p, bs) = extend_left ok s s 0 0 (p, p, bs + 1)"
    by (subst extend_left.simps) (simp add: ok)
  then show ?case by (simp add: Suc.IH)
qed

lemma extend_right_diag:
  assumes ok: "\<And>x. ok x"
  shows "k \<le> n \<Longrightarrow> extend_right ok s s n n (0, 0, k) = (0, 0, n)"
proof (induction "n - k" arbitrary: k)
  case 0
  then show ?case by (subst extend_right.simps) simp
next
  case (Suc d)
  have "k < n" using Suc.hyps(2) by simp
  then have "extend_right ok s s n n (0, 0, k) = extend_right ok s s n n (0, 0, k + 1)"
    by (subst extend_right.simps) (simp add: ok)
  moreover have "extend_right ok s s n n (0, 0, k + 1) = (0, 0, n)"
    using Suc.hyps(2) by (intro Suc.hyps(1)) simp_all
  ultimately show ?case by simp
qed

lemma extend_left_never: "\<forall>x. \<not> ok x \<Longrightarrow> extend_left ok a b alo blo best = best"
  by (cases best) (simp add: extend_left.simps)

lemma extend_right_never: "\<forall>x. \<not> ok x \<Longrightarrow> extend_right ok a b ahi bhi best = best"
  by (cases best) (simp add: extend_right.simps)

lemma find_longest_match_same:
  "find_longest_match (SequenceMatcher s s) 0 (length s) 0 (length s) = (0, 0, length s)"
proof -
  obtain p bs where
    "main_loop (SequenceMatcher s s) 0 (length s) 0 (length s) = (p, p, bs)" "p + bs \<le> length s"
    using main_loop_diag [of s] by blast
  then show ?thesis
    by (simp add: find_longest_match_def Let_def SequenceMatcher_def
        extend_left_diag extend_right_diag extend_left_never extend_right_never)
qed

lemma seq_SequenceMatcher:
  "seq_a (SequenceMatcher a b) = a" "seq_b (SequenceMatcher a b) = b"
  by (simp_all add: SequenceMatcher_def)

lemma get_matching_blocks_same:
  "get_matching_blocks (SequenceMatcher s s) =
     (if s = [] then [(0, 0, 0)] else [(0, 0, length s), (length s, length s, 0)])"
proof -
  note ab = seq_SequenceMatcher
  have "gmb_loop (SequenceMatcher s s) [(0, length s, 0, length s)] [] =
        (if s = [] then [] else [(0, 0, length s)])"
    by (simp add: find_longest_match_same)
  then show ?thesis
    by (simp add: get_matching_blocks_def ab Let_def)
qed

section \<open>What search\_product returns and what an iteration does\<close>

text \<open>
  Every exception raised inside the \<open>try\<close> of \<open>search_product\<close>, other than one the request
  itself raises, derives from \<open>Exception\<close>.  So the function returns the match outcome: the
  candidate's price, name and rounded score when the candidate is accepted, the rejected
  triple otherwise.
\<close>

definition safe :: "py_exn + 'a \<Rightarrow> bool" where
  "safe r = (case r of Inl e \<Rightarrow> is_Exception e | Inr x \<Rightarrow> True)"

lemma safe_Inr [simp]: "safe (Inr x)"
  by (simp add: safe_def)

lemma safe_Inl [simp]: "safe (Inl e) = is_Exception e"
  by (simp add: safe_def)

lemma safe_bind: "safe r \<Longrightarrow> (\<And>x. safe (f x)) \<Longrightarrow> safe (bind r f)"
  by (cases r) (simp_all add: bind_def)

lemma safe_py_first: "safe (py_first xs)"
  by (cases xs) (simp_all add: py_first_def is_Exception_def)

lemma safe_dict_get: "safe (dict_get x key dflt)"
  by (cases x) (simp_all add: is_Exception_def split: option.splits)

lemma safe_subscript_key: "safe (subscript_key x key)"
  by (cases x) (simp_all add: is_Exception_def split: option.splits)

lemma safe_subscript0: "safe (subscript0 x)"
  by (cases x) (simp_all add: is_Exception_def safe_py_first split: list.splits)

lemma safe_py_lower: "safe (py_lower x)"
  by (cases x) (simp_all add: is_Exception_def)

lemma safe_gt0: "safe (gt0 x)"
  by (cases x) (simp_all add: is_Exception_def)

lemma safe_response_json: "safe (response_json b)"
  by (cases b) (simp_all add: response_json_def is_Exception_def)

lemma safe_extract_price: "safe (extract_price prices)"
  unfolding extract_price_def by (intro safe_bind safe_dict_get)

lemma safe_match_candidate: "safe (match_candidate term data)"
  unfolding match_candidate_def Let_def
  by (intro safe_bind safe_dict_get safe_subscript0 safe_py_lower safe_extract_price safe_Inr)

lemma search_try_Response:
  "(case search_try term (Response s b) of
      Inl e \<Rightarrow> if is_Exception e then Inr rejected else Inl e
    | Inr (Some t) \<Rightarrow> Inr t
    | Inr None \<Rightarrow> Inr rejected) = Inr (match_outcome term (Response s b))"
proof (cases "s = 200")
  case False
  then show ?thesis by (simp add: search_try_def match_outcome_def candidate_def)
next
  case True
  show ?thesis
  proof (cases "response_json b")
    case (Inl e)
    moreover have "is_Exception e" using safe_response_json [of b] Inl by simp
    ultimately show ?thesis
      using True by (simp add: search_try_def match_outcome_def candidate_def bind_def)
  next
    case j: (Inr j)
    show ?thesis
    proof (cases "dict_get j ''data'' PNone")
      case (Inl e)
      moreover have "is_Exception e" using safe_dict_get [of j "''data''" PNone] Inl by simp
      ultimately show ?thesis
        using True j by (simp add: search_try_def match_outcome_def candidate_def bind_def)
    next
      case d: (Inr data)
      show ?thesis
      proof (cases "truthy data")
        case False
        then show ?thesis
          using True j d by (simp add: search_try_def match_outcome_def candidate_def bind_def)
      next
        case t: True
        show ?thesis
        proof (cases "match_candidate term data")
          case (Inl e)
          moreover have "is_Exception e" using safe_match_candidate [of "term" data] Inl by simp
          ultimately show ?thesis
            using True j d t by (simp add: search_try_def match_outcome_def candidate_def bind_def)
        next
          case (Inr c)
          obtain price found_name similarity where c: "c = (price, found_name, similarity)"
            by (cases c)
          show ?thesis
          proof (cases "gt0 price")
            case (Inl e)
            moreover have "is_Exception e" using safe_gt0 [of price] Inl by simp
            ultimately show ?thesis
              using True j d t Inr c
              by (simp add: search_try_def match_outcome_def candidate_def bind_def accepted_def)
          next
            case g: (Inr positive)
            show ?thesis
              using True j d t Inr c g
              by (simp add: search_try_def match_outcome_def candidate_def bind_def accepted_def)
          qed
        qed
      qed
    qed
  qed
qed

lemma search_product_eq:
  assumes "search_term brand name = Inr term"
  shows "search_product r brand name =
     (Some term,
      case r of
        Raises e \<Rightarrow> if is_Exception e then Inr rejected else Inl e
      | Response s b \<Rightarrow> Inr (match_outcome term r))"
proof (cases r)
  case (Raises e)
  then show ?thesis using assms by (simp add: search_product_def search_try_def)
next
  case (Response s b)
  then show ?thesis
    using assms search_try_Response [of "term" s b] by (simp add: search_product_def)
qed

lemma gt0_truthy: "gt0 p = Inr True \<Longrightarrow> truthy p"
  by (cases p) auto

lemma append_outcome:
  "(case match_outcome term r of (price, kroger_name, score) \<Rightarrow>
      if truthy price then acc @ [enrich row price kroger_name score] else acc)
   = acc @ (case candidate term r of
              None \<Rightarrow> []
            | Some (price, found_name, similarity) \<Rightarrow>
                if accepted price similarity
                then [enrich row price found_name (PNum (round1 (similarity * 100)))]
                else [])"
proof (cases "candidate term r")
  case None
  then show ?thesis by (simp add: match_outcome_def rejected_def)
next
  case (Some c)
  obtain price found_name similarity where c: "c = (price, found_name, similarity)" by (cases c)
  show ?thesis
  proof (cases "accepted price similarity")
    case True
    then have "truthy price" by (simp add: accepted_def gt0_truthy)
    then show ?thesis using Some c True by (simp add: match_outcome_def)
  next
    case False
    then show ?thesis using Some c by (simp add: match_outcome_def rejected_def)
  qed
qed

lemma row_term_None:
  "row_term row = None \<Longrightarrow> run_loop ((row, r, sig) # rest) acc tr = (Raised KeyError, acc, tr)"
proof -
  assume a: "row_term row = None"
  show ?thesis
  proof (cases "series_get row ''Brand''")
    case (Inl e)
    then have "e = KeyError" by (auto simp: series_get_def split: option.splits)
    then show ?thesis using Inl by simp
  next
    case b: (Inr brand)
    show ?thesis
    proof (cases "series_get row ''Product_Name''")
      case (Inl e)
      then have "e = KeyError" by (auto simp: series_get_def split: option.splits)
      then show ?thesis using Inl b by simp
    next
      case (Inr name)
      then show ?thesis
        using a b search_term_Inr [of brand name] by (auto simp: row_term_def)
    qed
  qed
qed

lemma row_term_Some:
  assumes "row_term row = Some term"
  shows "run_loop ((row, r, sig) # rest) acc tr =
     (case r of
        Raises e \<Rightarrow>
          if is_Exception e then
            (if sig = SigintBeforeAppend then (Interrupted, acc, tr @ [ProductRequest term])
             else if sig = SigintInSleep then (Interrupted, acc, tr @ [ProductRequest term])
             else run_loop rest acc (tr @ [ProductRequest term, Sleep (3/50)]))
          else (if e = KeyboardInterrupt then Interrupted else Raised e, acc, tr @ [ProductRequest term])
      | Response s b \<Rightarrow>
          if sig = SigintBeforeAppend then (Interrupted, acc, tr @ [ProductRequest term])
          else if sig = SigintInSleep
          then (Interrupted, acc @ enriched_row (row, r, sig), tr @ [ProductRequest term])
          else run_loop rest (acc @ enriched_row (row, r, sig))
                 (tr @ [ProductRequest term, Sleep (3/50)]))"
proof -
  obtain brand name where bn: "series_get row ''Brand'' = Inr brand"
      "series_get row ''Product_Name'' = Inr name" "search_term brand name = Inr term"
    using assms by (auto simp: row_term_def split: sum.splits)
  note sp = search_product_eq [OF bn(3), of r]
  show ?thesis
  proof (cases r)
    case (Raises e)
    then show ?thesis
      using bn sp by (simp add: rejected_def)
  next
    case (Response s b)
    have er: "enriched_row (row, r, sig) =
        (case candidate term r of
              None \<Rightarrow> []
            | Some (price, found_name, similarity) \<Rightarrow>
                if accepted price similarity
                then [enrich row price found_name (PNum (round1 (similarity * 100)))]
                else [])"
      using assms by (simp add: enriched_row_def)
    obtain price kroger_name score where mo: "match_outcome term r = (price, kroger_name, score)"
      by (cases "match_outcome term r")
    have app: "(if truthy price then acc @ [enrich row price kroger_name score] else acc)
               = acc @ enriched_row (row, r, sig)"
      using append_outcome [where r = r and acc = acc and row = row, of "term"] mo er by simp
    show ?thesis
      using bn sp Response mo app by (simp add: Let_def)
  qed
qed

declare run_loop.simps(2) [simp del]

lemma enriched_row_Raises: "enriched_row (row, Raises e, sig) = []"
  by (simp add: enriched_row_def candidate_def split: option.splits)

lemma run_loop_step:
  assumes "row_term row = Some term"
  shows "run_loop ((row, r, sig) # rest) acc tr =
     (if r = Raises KeyboardInterrupt then (Interrupted, acc, tr @ [ProductRequest term])
      else if r = Raises SystemExit then (Raised SystemExit, acc, tr @ [ProductRequest term])
      else if sig = SigintBeforeAppend then (Interrupted, acc, tr @ [ProductRequest term])
      else if sig = SigintInSleep
      then (Interrupted, acc @ enriched_row (row, r, sig), tr @ [ProductRequest term])
      else run_loop rest (acc @ enriched_row (row, r, sig))
             (tr @ [ProductRequest term, Sleep (3/50)]))"
proof (cases r)
  case (Raises e)
  then show ?thesis
    unfolding row_term_Some [OF assms]
    by (auto simp: enriched_row_Raises is_Exception_def)
next
  case (Response s b)
  then show ?thesis
    unfolding row_term_Some [OF assms] by simp
qed

lemma row_events_Some: "row_term row = Some term \<Longrightarrow> row_events (row, r, sig) = [ProductRequest term, Sleep (3/50)]"
  by (simp add: row_events_def)

lemma enriched_rows_Cons: "enriched_rows (x # rows) = enriched_row x @ enriched_rows rows"
  by (simp add: enriched_rows_def)

lemma enriched_rows_Nil: "enriched_rows [] = []"
  by (simp add: enriched_rows_def)

lemma run_loop_Completed:
  "run_loop rows acc tr = (Completed, res, tr') \<Longrightarrow>
     res = acc @ enriched_rows rows \<and> tr' = tr @ concat (map row_events rows)"
proof (induction rows arbitrary: acc tr)
  case Nil
  then show ?case by (simp add: enriched_rows_Nil)
next
  case (Cons x rows)
  obtain row r sig where x: "x = (row, r, sig)" by (cases x)
  show ?case
  proof (cases "row_term row")
    case None
    then show ?thesis using Cons.prems unfolding x row_term_None [OF None] by simp
  next
    case (Some q)
    have "run_loop rows (acc @ enriched_row x) (tr @ row_events x) = (Completed, res, tr')"
      using Cons.prems unfolding x run_loop_step [OF Some] row_events_Some [OF Some]
      by (simp split: if_splits)
    from Cons.IH [OF this] show ?thesis
      by (simp add: enriched_rows_Cons)
  qed
qed


lemma run_loop_any:
  "run_loop rows acc tr = (e, res, tr') \<Longrightarrow>
     \<exists>k j part. k \<le> length rows \<and> res = acc @ enriched_rows (take k rows)
       \<and> j \<le> length rows \<and> tr' = tr @ concat (map row_events (take j rows)) @ part
       \<and> (part = [] \<or> (\<exists>term. part = [ProductRequest term]))"
proof (induction rows arbitrary: acc tr)
  case Nil
  then show ?case by (simp add: enriched_rows_Nil)
next
  case (Cons x rows)
  obtain row r sig where x: "x = (row, r, sig)" by (cases x)
  show ?case
  proof (cases "row_term row")
    case None
    then have "res = acc @ enriched_rows (take 0 (x # rows))"
      "tr' = tr @ concat (map row_events (take 0 (x # rows))) @ []"
      using Cons.prems unfolding x row_term_None [OF None] by (simp_all add: enriched_rows_Nil)
    then show ?thesis by blast
  next
    case (Some q)
    consider (stop) "tr' = tr @ [ProductRequest q]" "res = acc \<or> res = acc @ enriched_row x"
      | (go) "run_loop rows (acc @ enriched_row x) (tr @ row_events x) = (e, res, tr')"
      using Cons.prems unfolding x run_loop_step [OF Some] row_events_Some [OF Some]
      by (auto split: if_splits)
    then show ?thesis
    proof cases
      case stop
      have "tr' = tr @ concat (map row_events (take 0 (x # rows))) @ [ProductRequest q]"
        using stop by simp
      moreover have "res = acc @ enriched_rows (take 0 (x # rows))
            \<or> res = acc @ enriched_rows (take (Suc 0) (x # rows))"
        using stop by (auto simp: enriched_rows_Cons enriched_rows_Nil)
      ultimately show ?thesis
        by (metis Suc_leI le0 length_Cons zero_less_Suc)
    next
      case go
      from Cons.IH [OF go] obtain k j part where k: "k \<le> length rows"
        "res = (acc @ enriched_row x) @ enriched_rows (take k rows)" "j \<le> length rows"
        "tr' = (tr @ row_events x) @ concat (map row_events (take j rows)) @ part"
        "part = [] \<or> (\<exists>term. part = [ProductRequest term])"
        by blast
      have "Suc k \<le> length (x # rows) \<and> res = acc @ enriched_rows (take (Suc k) (x # rows))
        \<and> Suc j \<le> length (x # rows)
        \<and> tr' = tr @ concat (map row_events (take (Suc j) (x # rows))) @ part"
        using k by (simp add: enriched_rows_Cons)
      then show ?thesis using k(5) by blast
    qed
  qed
qed

lemma failure_no_candidate: "row_search_failure r \<Longrightarrow> candidate q r = None"
  by (auto simp: row_search_failure_def candidate_def response_json_def bind_def
      split: http_result.splits body.splits sum.splits)

lemma failure_no_row:
  "row_search_failure r \<Longrightarrow> enriched_row (row, r, sig) = []"
  by (simp add: enriched_row_def failure_no_candidate split: option.splits)

lemma paced_row_events: "paced part \<Longrightarrow> paced (concat (map row_events xs) @ part)"
proof (induction xs)
  case Nil
  then show ?case by simp
next
  case (Cons x xs)
  then show ?case
    by (cases "row_term (fst x)") (simp_all add: row_events_def)
qed

lemma run_loop_Completed_terms:
  "run_loop rows acc tr = (Completed, res, tr') \<Longrightarrow> \<forall>x\<in>set rows. row_term (fst x) \<noteq> None"
proof (induction rows arbitrary: acc tr)
  case Nil
  then show ?case by simp
next
  case (Cons x rows)
  obtain row r sig where x: "x = (row, r, sig)" by (cases x)
  show ?case
  proof (cases "row_term row")
    case None
    then show ?thesis using Cons.prems unfolding x row_term_None [OF None] by simp
  next
    case (Some q)
    have "run_loop rows (acc @ enriched_row x) (tr @ row_events x) = (Completed, res, tr')"
      using Cons.prems unfolding x run_loop_step [OF Some] row_events_Some [OF Some]
      by (simp split: if_splits)
    from Cons.IH [OF this] show ?thesis using Some by (simp add: x)
  qed
qed

lemma map_fst_series_set:
  "map fst (series_set row k v) = (if k \<in> set (map fst row) then map fst row else map fst row @ [k])"
proof -
  have "map fst (map (\<lambda>(k', old). (k', if k' = k then v else old)) row) = map fst row"
    by (induction row) auto
  then show ?thesis by (simp add: series_set_def)
qed


lemma map_fst_Csv: "map fst (map (\<lambda>(k, c). (k, Csv c)) row) = map fst row"
  by (induction row) auto

lemma map_fst_enrich:
  "map fst (enrich row p n s) = map fst row @ [c \<leftarrow> new_cols. c \<notin> set (map fst row)]"
proof -
  define r0 where "r0 = map (\<lambda>(k, c). (k, Csv c)) row"
  define r1 where "r1 = series_set r0 ''Price'' (Py p)"
  define r2 where "r2 = series_set r1 ''Kroger_Name'' (Py n)"
  define r3 where "r3 = series_set r2 ''Match_Score'' (Py s)"
  define r4 where "r4 = series_set r3 ''Price_Source'' (Py (PStr ''Kroger API''))"
  have k0: "map fst r0 = map fst row"
    unfolding r0_def by (rule map_fst_Csv)
  have k1: "map fst r1 = map fst row @ [c \<leftarrow> [''Price'']. c \<notin> set (map fst row)]"
    unfolding r1_def map_fst_series_set k0 by simp
  have k2: "map fst r2 =
      map fst row @ [c \<leftarrow> [''Price'', ''Kroger_Name'']. c \<notin> set (map fst row)]"
    unfolding r2_def map_fst_series_set k1 by simp
  have k3: "map fst r3 =
      map fst row @ [c \<leftarrow> [''Price'', ''Kroger_Name'', ''Match_Score'']. c \<notin> set (map fst row)]"
    unfolding r3_def map_fst_series_set k2 by simp
  have k4: "map fst r4 = map fst row @ [c \<leftarrow> new_cols. c \<notin> set (map fst row)]"
    unfolding r4_def map_fst_series_set k3 new_cols_def by simp
  have "enrich row p n s = r4"
    by (simp only: enrich_def r4_def r3_def r2_def r1_def r0_def)
  then show ?thesis using k4 by simp
qed


lemma series_get_key: "series_get row k = Inr v \<Longrightarrow> k \<in> set (map fst row)"
  by (auto simp: series_get_def split: option.splits dest: map_of_SomeD intro: rev_image_eqI)

lemma row_term_keys:
  "row_term row = Some q \<Longrightarrow> ''Brand'' \<in> set (map fst row) \<and> ''Product_Name'' \<in> set (map fst row)"
  by (auto simp: row_term_def split: sum.splits dest: series_get_key)

lemma enriched_row_cases:
  "enriched_row x = []
   \<or> (\<exists>q price found_name similarity.
        row_term (fst x) = Some q
        \<and> candidate q (fst (snd x)) = Some (price, found_name, similarity)
        \<and> accepted price similarity
        \<and> enriched_row x = [enrich (fst x) price found_name (PNum (round1 (similarity * 100)))])"
  by (cases x) (auto simp: enriched_row_def split: option.splits)

lemma enriched_rows_member:
  assumes "out \<in> set (enriched_rows rows)"
  shows "\<exists>x\<in>set rows. \<exists>q price found_name similarity.
           row_term (fst x) = Some q
           \<and> candidate q (fst (snd x)) = Some (price, found_name, similarity)
           \<and> accepted price similarity
           \<and> out = enrich (fst x) price found_name (PNum (round1 (similarity * 100)))"
proof -
  obtain x where x: "x \<in> set rows" "out \<in> set (enriched_row x)"
    using assms by (auto simp: enriched_rows_def)
  then show ?thesis
    using enriched_row_cases [of x] by (intro bexI [of _ x]) auto
qed

section \<open>Columns and rows of the saved table\<close>

lemma enriched_columns:
  assumes "out \<in> set (enriched_rows xs)" "\<forall>x\<in>set xs. map fst (fst x) = cs"
  shows "map fst out = cs @ [c \<leftarrow> new_cols. c \<notin> set cs]
         \<and> ''Brand'' \<in> set cs \<and> ''Product_Name'' \<in> set cs"
proof -
  obtain x q price found_name similarity where x: "x \<in> set xs" "row_term (fst x) = Some q"
    "out = enrich (fst x) price found_name (PNum (round1 (similarity * 100)))"
    using enriched_rows_member [OF assms(1)] by blast
  have "map fst (fst x) = cs" using assms(2) x(1) by blast
  then show ?thesis
    using row_term_keys [OF x(2)] by (simp add: x(3) map_fst_enrich)
qed

lemma frame_columns_shared:
  "res \<noteq> [] \<Longrightarrow> \<forall>out\<in>set res. map fst out = F \<Longrightarrow> frame_columns res = F"
  by (cases res) (simp_all add: frame_columns_def)

lemma save_table:
  assumes "res \<noteq> []" "\<forall>out\<in>set res. map fst out = F" "set cols \<subseteq> set F"
  shows "save res =
     Inr (Some \<lparr>tcolumns = cols @ [c \<leftarrow> F. c \<notin> set cols],
                trows = map (\<lambda>row. map (\<lambda>c. case map_of row c of None \<Rightarrow> Csv CNaN | Some v \<Rightarrow> v)
                                    (cols @ [c \<leftarrow> F. c \<notin> set cols])) res\<rparr>)"
proof -
  have fc: "frame_columns res = F" using assms(1,2) by (rule frame_columns_shared)
  have "list_all (\<lambda>c. c \<in> set F) (cols @ [c \<leftarrow> F. c \<notin> set cols])"
    using assms(3) by (auto simp: list_all_iff)
  then show ?thesis
    using assms(1) by (simp add: save_def select_columns_def fc Let_def)
qed

lemma cols_split: "cols = [''UPC'', ''Brand'', ''Product_Name''] @ new_cols"
  by (simp add: cols_def new_cols_def)

lemma passthrough_columns:
  "[c \<leftarrow> cs @ [c \<leftarrow> new_cols. c \<notin> set cs]. c \<notin> set cols] = [c \<leftarrow> cs. c \<notin> set cols]"
proof -
  have "[c \<leftarrow> [c \<leftarrow> new_cols. c \<notin> set cs]. c \<notin> set cols] = []"
    by (auto simp: filter_empty_conv cols_split)
  then show ?thesis by simp
qed

lemma cols_covered:
  assumes "''UPC'' \<in> set cs" "''Brand'' \<in> set cs" "''Product_Name'' \<in> set cs"
  shows "set cols \<subseteq> set (cs @ [c \<leftarrow> new_cols. c \<notin> set cs])"
  using assms by (auto simp: cols_split)




section \<open>The claims\<close>



text \<open>
  C2, as the code has it.  The extracted price is the promotional price whenever the
  price dictionary has a \<open>promo\<close> entry, whatever its value; otherwise the regular price
  when there is one; otherwise 0.  A promotional price of 2.50 with a regular price of
  3.00 gives 2.50.  A promotional price of 0 with a regular price of 3.00 gives 0, and
  \<open>search_product\<close> then rejects the candidate.
\<close>

theorem extract_price_promo_first:
  "extract_price (PDict prices) =
     Inr (case map_of prices ''promo'' of
            Some promo \<Rightarrow> promo
          | None \<Rightarrow> (case map_of prices ''regular'' of Some regular \<Rightarrow> regular | None \<Rightarrow> PNum 0))
   \<and> extract_price (PDict [(''promo'', PNum (5/2)), (''regular'', PNum 3)]) = Inr (PNum (5/2))
   \<and> extract_price (PDict [(''promo'', PNum 0), (''regular'', PNum 3)]) = Inr (PNum 0)
   \<and> snd (search_product
            (Response 200 (Json (PDict [(''data'', PList [PDict
               [(''description'', PStr ''milk''),
                (''items'', PList [PDict [(''price'',
                   PDict [(''promo'', PNum 0), (''regular'', PNum 3)])]])]])])))
            (CStr ''generic'') (CStr ''milk'')) = Inr rejected"
proof (intro conjI)
  show "extract_price (PDict prices) =
     Inr (case map_of prices ''promo'' of
            Some promo \<Rightarrow> promo
          | None \<Rightarrow> (case map_of prices ''regular'' of Some regular \<Rightarrow> regular | None \<Rightarrow> PNum 0))"
    by (simp add: extract_price_def bind_def split: option.splits)
  show "extract_price (PDict [(''promo'', PNum (5/2)), (''regular'', PNum 3)]) = Inr (PNum (5/2))"
    by (simp add: extract_price_def bind_def)
  show "extract_price (PDict [(''promo'', PNum 0), (''regular'', PNum 3)]) = Inr (PNum 0)"
    by (simp add: extract_price_def bind_def)
  show "snd (search_product
            (Response 200 (Json (PDict [(''data'', PList [PDict
               [(''description'', PStr ''milk''),
                (''items'', PList [PDict [(''price'',
                   PDict [(''promo'', PNum 0), (''regular'', PNum 3)])]])]])])))
            (CStr ''generic'') (CStr ''milk'')) = Inr rejected"
    by code_simp
qed

text \<open>
  C2 as stated lets a promotional price of 0 fall back to the regular price of 3.00.  The
  code does not: the extracted price is 0.
\<close>

theorem extract_price_zero_promo:
  "extract_price (PDict [(''promo'', PNum 0), (''regular'', PNum 3)]) \<noteq> Inr (PNum 3)"
  by (simp add: extract_price_def bind_def)

text \<open>
  C3, as the code has it.  The similarity of a string with itself is 1, for every string
  (the empty one too).
\<close>

theorem ratio_identical: "ratio (SequenceMatcher s s) = 1"
  by (simp add: ratio_def get_matching_blocks_same calculate_ratio_def seq_SequenceMatcher)

text \<open>
  C3 as stated also asks for symmetry.  It fails: \<open>tide\<close> against \<open>diet\<close> scores 0.25, and
  \<open>diet\<close> against \<open>tide\<close> scores 0.5.
\<close>

theorem ratio_not_symmetric:
  "ratio (SequenceMatcher ''tide'' ''diet'') = 1/4
   \<and> ratio (SequenceMatcher ''diet'' ''tide'') = 1/2
   \<and> ratio (SequenceMatcher ''tide'' ''diet'') \<noteq> ratio (SequenceMatcher ''diet'' ''tide'')"
proof -
  have a: "ratio (SequenceMatcher ''tide'' ''diet'') = 1/4" by code_simp
  have b: "ratio (SequenceMatcher ''diet'' ''tide'') = 1/2" by code_simp
  show ?thesis unfolding a b by simp
qed

text \<open>
  C4.  For every brand and name, the query term of \<open>search_product\<close> is the one the
  specification describes: the name without quote and comma characters, cut before the
  first \<open>" - "\<close>, with the brand and a space in front unless the lower-cased brand is one
  of nan, unknown, generic, none.  Brand \<open>Generic\<close> with name \<open>Large Eggs - 12ct\<close> gives
  exactly \<open>Large Eggs\<close>.
\<close>

theorem search_term_spec:
  "search_term brand name = Inr (query_term_spec (py_str brand) (py_str name))
   \<and> search_term (CStr ''Generic'') (CStr ''Large Eggs - 12ct'') = Inr ''Large Eggs''"
proof
  show "search_term brand name = Inr (query_term_spec (py_str brand) (py_str name))"
    by (simp add: search_term_def clean_name_eq query_term_spec_def generic_brands_def Let_def)
  show "search_term (CStr ''Generic'') (CStr ''Large Eggs - 12ct'') = Inr ''Large Eggs''"
    by code_simp
qed

text \<open>
  C5.  Unless the user stops the run while the request waits, \<open>search_product\<close> returns
  to its caller and raises nothing.  On a transport error or a timeout, a status other
  than 200, a body that is not JSON or not an object, or an empty result list, it returns
  the rejected outcome (no price, no matched name, score 0), and the loop goes on to the
  next row after the request and the sleep.
\<close>

theorem search_product_never_raises:
  assumes "r \<noteq> Raises KeyboardInterrupt" and "r \<noteq> Raises SystemExit"
  shows "(\<exists>out. snd (search_product r brand name) = Inr out)
    \<and> (row_search_failure r \<longrightarrow> snd (search_product r brand name) = Inr rejected)
    \<and> (row_search_failure r \<and> row_term row = Some q \<longrightarrow>
         run_loop ((row, r, NoSigint) # rest) acc tr =
         run_loop rest acc (tr @ [ProductRequest q, Sleep (3/50)]))"
proof (intro conjI impI)
  obtain t where t: "search_term brand name = Inr t"
    using search_term_Inr by blast
  have exc: "\<And>e. r = Raises e \<Longrightarrow> is_Exception e"
    using assms by (auto simp: is_Exception_def)
  show "\<exists>out. snd (search_product r brand name) = Inr out"
    using exc by (cases r) (simp_all add: search_product_eq [OF t] del: split_paired_Ex)
  show "snd (search_product r brand name) = Inr rejected" if "row_search_failure r"
  proof (cases r)
    case (Raises e)
    then show ?thesis using exc by (simp add: search_product_eq [OF t])
  next
    case (Response s b)
    then show ?thesis
      using failure_no_candidate [OF that, of t]
      by (simp add: search_product_eq [OF t] match_outcome_def)
  qed
  show "run_loop ((row, r, NoSigint) # rest) acc tr =
        run_loop rest acc (tr @ [ProductRequest q, Sleep (3/50)])"
    if "row_search_failure r \<and> row_term row = Some q"
    using that assms by (simp add: run_loop_step failure_no_row)
qed

theorem search_product_never_raises_witness:
  "Raises Timeout \<noteq> Raises KeyboardInterrupt \<and> Raises Timeout \<noteq> Raises SystemExit
   \<and> row_search_failure (Raises Timeout)
   \<and> snd (search_product (Raises Timeout) (CStr ''Acme'') (CStr ''Milk'')) = Inr rejected
   \<and> row_search_failure (Response 500 NotJson)
   \<and> snd (search_product (Response 500 NotJson) CNaN (CStr ''Milk'')) = Inr rejected"
proof -
  have a: "Raises Timeout \<noteq> Raises KeyboardInterrupt" "Raises Timeout \<noteq> Raises SystemExit"
    by simp_all
  have b: "Response 500 NotJson \<noteq> Raises KeyboardInterrupt"
    "Response 500 NotJson \<noteq> Raises SystemExit"
    by simp_all
  have f: "row_search_failure (Raises Timeout)" "row_search_failure (Response 500 NotJson)"
    by (simp_all add: row_search_failure_def is_Exception_def)
  show ?thesis
    using search_product_never_raises [OF a, of "CStr ''Acme''" "CStr ''Milk''"]
      search_product_never_raises [OF b, of CNaN "CStr ''Milk''"] f
    by simp
qed



text \<open>
  C7.  The requests and the sleeps of the loop come in turn: every product request but
  possibly the last is followed by a sleep of 0.06 seconds (60 ms) before the next request.
  In a run that reaches the end of the catalog the outside sees, for each row in catalog
  order, the request of that row and then the sleep, whatever the request's outcome was.
\<close>

theorem pacing_after_every_row:
  assumes "run_loop rows acc [] = (e, res, tr')"
  shows "paced tr'
    \<and> (e = Completed \<longrightarrow>
         tr' = concat (map row_events rows)
         \<and> (\<forall>x\<in>set rows. \<exists>q. row_events x = [ProductRequest q, Sleep (3/50)]))"
proof (intro conjI impI)
  obtain j part where "tr' = [] @ concat (map row_events (take j rows)) @ part"
    "part = [] \<or> (\<exists>q. part = [ProductRequest q])"
    using run_loop_any [OF assms] by blast
  then show "paced tr'"
    using paced_row_events [of part "take j rows"] by auto
next
  assume "e = Completed"
  then have c: "run_loop rows acc [] = (Completed, res, tr')" using assms by simp
  show "tr' = concat (map row_events rows)"
    using run_loop_Completed [OF c] by simp
  show "\<forall>x\<in>set rows. \<exists>q. row_events x = [ProductRequest q, Sleep (3/50)]"
    using run_loop_Completed_terms [OF c] by (auto simp: row_events_def)
qed

theorem pacing_after_every_row_witness:
  "fst (run_loop example_rows [] []) = Completed
   \<and> paced (snd (snd (run_loop example_rows [] [])))
   \<and> snd (snd (run_loop example_rows [] [])) =
       [ProductRequest ''Eggs'', Sleep (3/50), ProductRequest ''Acme Milk'', Sleep (3/50)]"
proof -
  have c: "fst (run_loop example_rows [] []) = Completed" by code_simp
  have t: "snd (snd (run_loop example_rows [] [])) =
       [ProductRequest ''Eggs'', Sleep (3/50), ProductRequest ''Acme Milk'', Sleep (3/50)]"
    by code_simp
  have "run_loop example_rows [] [] =
        (fst (run_loop example_rows [] []), fst (snd (run_loop example_rows [] [])),
         snd (snd (run_loop example_rows [] [])))"
    by simp
  from pacing_after_every_row [OF this]
  have p: "paced (snd (snd (run_loop example_rows [] [])))" by (rule conjunct1)
  show ?thesis using c p t by blast
qed

text \<open>
  C8.  When the accumulator is not empty at the end of the loop, for a catalog with a
  \<open>UPC\<close> column, the table that is written has the columns \<open>UPC\<close>, \<open>Brand\<close>,
  \<open>Product_Name\<close>, \<open>Price\<close>, \<open>Kroger_Name\<close>, \<open>Match_Score\<close>, \<open>Price_Source\<close> in this
  order, followed by the other columns of the catalog in the order the catalog has them.
\<close>

theorem output_column_order:
  assumes "run_loop rows [] tr = (e, res, tr')" and "res \<noteq> []"
    and "\<forall>x\<in>set rows. map fst (fst x) = cs" and "''UPC'' \<in> set cs"
  shows "\<exists>t. save res = Inr (Some t) \<and> tcolumns t = cols @ [c \<leftarrow> cs. c \<notin> set cols]"
proof -
  obtain k where k: "res = enriched_rows (take k rows)"
    using run_loop_any [OF assms(1)] by auto
  have shared: "\<forall>x\<in>set (take k rows). map fst (fst x) = cs"
    using assms(3) by (auto dest: in_set_takeD)
  let ?F = "cs @ [c \<leftarrow> new_cols. c \<notin> set cs]"
  have each: "\<forall>out\<in>set res. map fst out = ?F"
    using enriched_columns [OF _ shared] k by blast
  obtain out where "out \<in> set res" using assms(2) by (cases res) auto
  then have "''Brand'' \<in> set cs" "''Product_Name'' \<in> set cs"
    using enriched_columns [OF _ shared, of out] k by simp_all
  then have "set cols \<subseteq> set ?F" using assms(4) by (intro cols_covered)
  from save_table [OF assms(2) each this, unfolded passthrough_columns] show ?thesis
    by simp
qed

theorem output_column_order_witness:
  "fst (snd (run_loop example_rows [] [])) \<noteq> []
   \<and> list_all (\<lambda>x. map fst (fst x) = [''UPC'', ''Brand'', ''Product_Name'', ''Calories''])
        example_rows
   \<and> (\<exists>t. save (fst (snd (run_loop example_rows [] []))) = Inr (Some t)
          \<and> tcolumns t = cols @ [''Calories''])"
proof -
  have eq: "run_loop example_rows [] [] =
        (fst (run_loop example_rows [] []), fst (snd (run_loop example_rows [] [])),
         snd (snd (run_loop example_rows [] [])))"
    by simp
  have ne: "fst (snd (run_loop example_rows [] [])) \<noteq> []" by code_simp
  have sh: "\<forall>x\<in>set example_rows. map fst (fst x) = [''UPC'', ''Brand'', ''Product_Name'', ''Calories'']"
    by (simp add: example_rows_def example_row_def)
  have upc: "''UPC'' \<in> set [''UPC'', ''Brand'', ''Product_Name'', ''Calories'']" by simp
  have f: "[c \<leftarrow> [''UPC'', ''Brand'', ''Product_Name'', ''Calories'']. c \<notin> set cols] = [''Calories'']"
    by (simp add: cols_def)
  have la: "list_all (\<lambda>x. map fst (fst x) = [''UPC'', ''Brand'', ''Product_Name'', ''Calories''])
        example_rows"
    using sh by (simp only: list_all_iff)
  from output_column_order [OF eq ne sh upc] show ?thesis
    unfolding f using ne la by blast
qed

text \<open>
  C9.  When \<open>get_access_token\<close> returns nothing usable the run exits after the
  authentication request alone; when the token is good and \<open>get_location_id\<close> returns
  nothing usable it exits after the two set-up requests.  In both cases no product request
  is sent and no table is written.  A request that raises, an error status, a body that
  is not JSON and a missing \<open>access_token\<close> make the token \<open>None\<close>; a request that raises,
  a body that is not JSON and a missing or empty \<open>data\<close> make the location \<open>None\<close>.
\<close>

theorem fatal_errors_before_loop:
  "(case get_access_token auth of
      Inl e \<Rightarrow> main auth loc rows = (Uncaught e, [AuthRequest])
    | Inr token \<Rightarrow>
        (\<not> truthy token \<longrightarrow> main auth loc rows = (Exited, [AuthRequest]))
        \<and> (truthy token \<and> \<not> truthy (get_location_id loc) \<longrightarrow>
             main auth loc rows = (Exited, [AuthRequest, LocationRequest])))
   \<and> (is_Exception e \<longrightarrow> get_access_token (Raises e) = Inr PNone)
   \<and> (400 \<le> s \<and> s < 600 \<longrightarrow> get_access_token (Response s b) = Inr PNone)
   \<and> get_access_token (Response s NotJson) = Inr PNone
   \<and> (map_of kvs ''access_token'' = None \<longrightarrow>
        get_access_token (Response s (Json (PDict kvs))) = Inr PNone)
   \<and> get_location_id (Raises e) = PNone
   \<and> get_location_id (Response s NotJson) = PNone
   \<and> (map_of kvs ''data'' = None \<or> map_of kvs ''data'' = Some (PList []) \<longrightarrow>
        get_location_id (Response s (Json (PDict kvs))) = PNone)"
proof (intro conjI impI)
  show "case get_access_token auth of
      Inl e \<Rightarrow> main auth loc rows = (Uncaught e, [AuthRequest])
    | Inr token \<Rightarrow>
        (\<not> truthy token \<longrightarrow> main auth loc rows = (Exited, [AuthRequest]))
        \<and> (truthy token \<and> \<not> truthy (get_location_id loc) \<longrightarrow>
             main auth loc rows = (Exited, [AuthRequest, LocationRequest]))"
    by (simp add: main_def Let_def split: sum.splits)
  show "get_access_token (Raises e) = Inr PNone" if "is_Exception e"
    using that by (simp add: get_access_token_def)
  show "get_access_token (Response s b) = Inr PNone" if "400 \<le> s \<and> s < 600"
    using that by (simp add: get_access_token_def is_Exception_def)
  show "get_access_token (Response s NotJson) = Inr PNone"
    by (simp add: get_access_token_def is_Exception_def response_json_def bind_def)
  show "get_access_token (Response s (Json (PDict kvs))) = Inr PNone"
    if "map_of kvs ''access_token'' = None"
    using that by (simp add: get_access_token_def is_Exception_def response_json_def bind_def)
  show "get_location_id (Raises e) = PNone"
    by (simp add: get_location_id_def)
  show "get_location_id (Response s NotJson) = PNone"
    by (simp add: get_location_id_def response_json_def bind_def)
  show "get_location_id (Response s (Json (PDict kvs))) = PNone"
    if "map_of kvs ''data'' = None \<or> map_of kvs ''data'' = Some (PList [])"
    using that by (auto simp: get_location_id_def response_json_def bind_def)
qed

theorem fatal_errors_before_loop_witness:
  "get_access_token (Raises Timeout) = Inr PNone
   \<and> main (Raises Timeout) (Response 200 NotJson) example_rows = (Exited, [AuthRequest])
   \<and> truthy (PStr ''token'') \<and> \<not> truthy (get_location_id (Response 200 NotJson))
   \<and> main (Response 200 (Json (PDict [(''access_token'', PStr ''token'')])))
        (Response 200 NotJson) example_rows = (Exited, [AuthRequest, LocationRequest])"
proof -
  have a: "get_access_token (Raises Timeout) = Inr PNone"
    by (simp add: get_access_token_def is_Exception_def)
  have b: "get_access_token (Response 200 (Json (PDict [(''access_token'', PStr ''token'')])))
           = Inr (PStr ''token'')"
    by (simp add: get_access_token_def response_json_def bind_def)
  have l: "\<not> truthy (get_location_id (Response 200 NotJson))"
    by (simp add: get_location_id_def response_json_def bind_def)
  show ?thesis
    using fatal_errors_before_loop [of "Raises Timeout" "Response 200 NotJson" example_rows]
      fatal_errors_before_loop [of "Response 200 (Json (PDict [(''access_token'', PStr ''token'')]))"
        "Response 200 NotJson" example_rows]
      a b l
    by simp
qed

text \<open>
  C10.  The query construction raises for no brand and no name: both are turned into
  text by \<open>str\<close> first.  A missing brand, the float NaN, becomes the text \<open>nan\<close> and the
  query term is then the cleaned name alone.
\<close>

theorem search_term_total:
  "(\<exists>t. search_term brand name = Inr t)
   \<and> py_str CNaN = ''nan''
   \<and> search_term CNaN name = clean_name name"
proof (intro conjI)
  show "\<exists>t. search_term brand name = Inr t"
    by (simp add: search_term_def clean_name_eq Let_def)
  show "py_str CNaN = ''nan''" by simp
  show "search_term CNaN name = clean_name name"
    by (simp add: search_term_def clean_name_eq generic_brands_def lower_def lower_char_def Let_def)
qed

end
